theory Spec2Isabelle
  imports Main "HOL-Library.Word"
begin

unbundle bit_operations_syntax

section \<open>The 2bit codec of mendelics/twobit\<close>

text \<open>
  A shallow embedding of the Go package \<^verbatim>\<open>twobit\<close>: the reader of \<^verbatim>\<open>twobit.go\<close>
  (header, index and record parsing, \<^verbatim>\<open>ReadRange\<close>, \<^verbatim>\<open>Unpack\<close>), the writer half
  of the package (\<^verbatim>\<open>Pack\<close>, \<^verbatim>\<open>mapBlocks\<close>, \<^verbatim>\<open>Add\<close>, \<^verbatim>\<open>WriteTo\<close>) and the
  collaborator \<^verbatim>\<open>GenomicInterval\<close>.

  Go's \<^verbatim>\<open>byte\<close> and \<^verbatim>\<open>uint8\<close> are \<open>8 word\<close>, \<^verbatim>\<open>uint32\<close> is \<open>32 word\<close>.
  Go's \<^verbatim>\<open>int\<close> is \<open>int\<close>: on the 64-bit targets of the package no \<^verbatim>\<open>int\<close> computed
  below leaves the 64-bit range for inputs that fit in memory. A Go \<^verbatim>\<open>string\<close> and a
  \<^verbatim>\<open>[]byte\<close> are both lists of bytes; \<^verbatim>\<open>len\<close> counts bytes and \<^verbatim>\<open>s[i]\<close> is a byte.
  Errors and run-time panics are values of the type \<open>error\<close>; every fallible function
  returns \<open>error + 'a\<close> with \<open>Inl\<close> the failure.
\<close>

subsection \<open>Bytes, strings and constants (const.go)\<close>

type_synonym u8 = "8 word"
type_synonym u32 = "32 word"
type_synonym gostring = "u8 list"

text \<open>The bytes of a string literal, to write Go string literals readably.\<close>

definition bytes_of :: "string \<Rightarrow> gostring" where
  "bytes_of s = map (\<lambda>c. word_of_nat (of_char c)) s"

definition SIG :: u32 where
  "SIG = 0x1A412743"

definition defaultBufSize :: int where
  "defaultBufSize = 4096"

definition BASE_N :: u8 where "BASE_N = 78"
definition BASE_T :: u8 where "BASE_T = 84"
definition BASE_C :: u8 where "BASE_C = 67"
definition BASE_A :: u8 where "BASE_A = 65"
definition BASE_G :: u8 where "BASE_G = 71"

definition BYTES2NT :: "u8 list" where
  "BYTES2NT = [BASE_T, BASE_C, BASE_A, BASE_G]"

text \<open>
  Modelled from the spec: the table \<^verbatim>\<open>NT2BYTES\<close> that \<^verbatim>\<open>Pack\<close> indexes with the
  comma-ok form \<^verbatim>\<open>v, ok := NT2BYTES[s[idx]]\<close> is a Go map whose declaration is not among
  the sources (const.go declares a byte slice of the same name, and \<^verbatim>\<open>init\<close> of twobit.go
  fills that slice for ten characters). The map has exactly the ten keys that \<^verbatim>\<open>init\<close>
  assigns, with the codes \<^verbatim>\<open>init\<close> gives them: a case-insensitive table over
  \<open>{A,C,G,T,N}\<close>, where \<open>N\<close> and \<open>T\<close> share the code 0.
\<close>

definition NT2BYTES :: "u8 \<rightharpoonup> u8" where
  "NT2BYTES = [BASE_N \<mapsto> 0, BASE_T \<mapsto> 0, BASE_C \<mapsto> 1, BASE_A \<mapsto> 2, BASE_G \<mapsto> 3,
               BASE_N + 32 \<mapsto> 0, BASE_T + 32 \<mapsto> 0, BASE_C + 32 \<mapsto> 1,
               BASE_A + 32 \<mapsto> 2, BASE_G + 32 \<mapsto> 3]"

text \<open>Go's \<^verbatim>\<open>/\<close> and \<^verbatim>\<open>%\<close> on \<^verbatim>\<open>int\<close> truncate towards zero.\<close>

definition go_quot :: "int \<Rightarrow> int \<Rightarrow> int" where
  "go_quot a b = sgn a * sgn b * (\<bar>a\<bar> div \<bar>b\<bar>)"

definition go_rem :: "int \<Rightarrow> int \<Rightarrow> int" where
  "go_rem a b = a - b * go_quot a b"

subsection \<open>Errors\<close>

datatype error =
    EOF
  | FailedReadFileIndex error
  | InvalidSig
  | UnsupportedVersion u32
  | HeaderReservedNonZero u32
  | FailedReadBlockCount error
  | FailedBlockStart error
  | FailedBlockSize error
  | InvalidSequenceName gostring
  | FailedReadDnaSize error
  | FailedReadNBlocks error
  | FailedReadMBlocks error
  | FailedReadReserved error
  | InvalidReserved
  | InvalidRange int int
  | FailedReadDnaBytes int
  | FailedReadDnaBytesErr error
  | UnsupportedBase u8
  | NameTooLong
  | BlankChromosome
  | PanicIndexOutOfRange
  | PanicSliceBounds
  | PanicNilPointer

subsection \<open>Blocks and records\<close>

text \<open>
  The struct \<^verbatim>\<open>Block{start, count}\<close>. The fields are called \<open>bstart\<close> and \<open>bcount\<close>,
  since \<open>start\<close> is the name of the range parameters of \<^verbatim>\<open>ReadRange\<close>.
\<close>

record Block =
  bstart :: int
  bcount :: int

definition Length :: "Block \<Rightarrow> int" where
  "Length b = bstart b + bcount b"

record seqRecord =
  dnaSize :: u32
  nBlocks :: "Block list"
  mBlocks :: "Block list"
  rec_reserved :: u32
  sequence :: "u8 list"

definition packedSize :: "int \<Rightarrow> int" where
  "packedSize n = drop_bit 2 (n + 3)"

definition size_rec :: "seqRecord \<Rightarrow> int" where
  "size_rec r = 16 + 2 * 4 * int (length (nBlocks r)) + 2 * 4 * int (length (mBlocks r))
                 + int (length (sequence r))"

subsection \<open>Unpack (twobit.go)\<close>

text \<open>
  The loop \<^verbatim>\<open>for j := 3; j >= 0; j--\<close> that decodes one packed byte into the four
  positions \<open>off + 3, \<dots>, off\<close> of a buffer. The third argument is \<open>j + 1\<close>.
  \<^verbatim>\<open>Unpack\<close> runs it on a fresh four-byte buffer with \<open>off = 0\<close>, \<^verbatim>\<open>ReadRange\<close> on its
  output array with \<open>off = i * 4\<close>.
\<close>

fun decode4 :: "u8 list \<Rightarrow> nat \<Rightarrow> nat \<Rightarrow> u8 \<Rightarrow> u8 list" where
  "decode4 buf off 0 base = buf"
| "decode4 buf off (Suc j) base =
     decode4 (buf[off + j := BYTES2NT ! unat (base AND 3)]) off j (drop_bit 2 base)"

fun Unpack_loop :: "u8 list \<Rightarrow> u8 list \<Rightarrow> u8 list" where
  "Unpack_loop dna [] = dna"
| "Unpack_loop dna (base # raw) =
     Unpack_loop (dna @ decode4 (replicate 4 0) 0 4 base) raw"

text \<open>
  \<^verbatim>\<open>dna.Bytes()[0:sz]\<close>. Go checks the upper bound of a slice expression on a slice
  against the capacity of the slice, not its length: up to the capacity the expression
  succeeds and shows the bytes of the backing array, beyond it (and for a negative
  bound) it panics. The bytes of a \<^verbatim>\<open>bytes.Buffer\<close> beyond the written ones are zero.
  The capacity is decided by the allocation of the buffer and not by \<^verbatim>\<open>Unpack\<close>; the
  last argument of the model, \<open>spare\<close>, is the capacity that \<^verbatim>\<open>dna.Bytes()\<close> has
  beyond its length. A \<^verbatim>\<open>bytes.Buffer\<close> that was never written has no array
  (\<open>spare = 0\<close>); its first allocation has the capacity \<open>smallBufferSize = 64\<close>, so that
  \<open>spare = 64 - n\<close> after \<open>0 < n \<le> 64\<close> bytes.
\<close>

definition smallBufferSize :: nat where
  "smallBufferSize = 64"

definition Unpack :: "u8 list \<Rightarrow> int \<Rightarrow> nat \<Rightarrow> error + gostring" where
  "Unpack raw sz spare =
     (let dna = Unpack_loop [] raw
      in if 0 \<le> sz \<and> sz \<le> int (length dna + spare)
         then Inr (take (nat sz) (dna @ replicate spare 0))
         else Inl PanicSliceBounds)"

subsection \<open>Pack\<close>

text \<open>
  The inner loop \<^verbatim>\<open>for j := 0; j < 4; j++\<close> of \<^verbatim>\<open>Pack\<close>; the second argument counts
  the iterations that remain. It returns the byte \<open>b\<close> and the index \<open>idx\<close>, or the
  error of the first unsupported base.
\<close>

fun pack4 :: "gostring \<Rightarrow> nat \<Rightarrow> u8 \<Rightarrow> nat \<Rightarrow> error + (u8 \<times> nat)" where
  "pack4 s 0 b idx = Inr (b, idx)"
| "pack4 s (Suc k) b idx =
     (let val = (case NT2BYTES BASE_T of Some v \<Rightarrow> v | None \<Rightarrow> 0)
      in if idx < length s
         then (case NT2BYTES (s ! idx) of
                 None \<Rightarrow> Inl (UnsupportedBase (s ! idx))
               | Some v \<Rightarrow> pack4 s k (push_bit 2 b + v) (idx + 1))
         else pack4 s k (push_bit 2 b + val) (idx + 1))"

text \<open>The outer loop \<^verbatim>\<open>for i := range out\<close>, writing \<^verbatim>\<open>out[i] = b\<close>.\<close>

function Pack_loop :: "gostring \<Rightarrow> u8 list \<Rightarrow> nat \<Rightarrow> nat \<Rightarrow> error + u8 list" where
  "Pack_loop s out i idx =
     (if i < length out
      then (case pack4 s 4 0 idx of
              Inl e \<Rightarrow> Inl e
            | Inr (b, idx') \<Rightarrow> Pack_loop s (out[i := b]) (i + 1) idx')
      else Inr out)"
  by pat_completeness auto
termination
  by (relation "measure (\<lambda>(s, out, i, idx). length out - i)") auto

definition Pack :: "gostring \<Rightarrow> error + u8 list" where
  "Pack s = Pack_loop s (replicate (nat (packedSize (int (length s)))) 0) 0 0"

subsection \<open>Run detection: mapBlocks\<close>

text \<open>
  The scan \<^verbatim>\<open>for i := 0; i < n; i++\<close> over the bytes of \<open>seq\<close>; the list argument is
  the part of the sequence from position \<open>i\<close> on. The state is the variables
  \<open>start\<close>, \<open>isLast\<close> and \<open>blocks\<close> of the source.
\<close>

fun mapBlocks_loop ::
  "(u8 \<Rightarrow> bool) \<Rightarrow> gostring \<Rightarrow> int \<Rightarrow> int \<Rightarrow> bool \<Rightarrow> Block list \<Rightarrow> int \<times> bool \<times> Block list" where
  "mapBlocks_loop check [] i start isLast blocks = (start, isLast, blocks)"
| "mapBlocks_loop check (c # cs) i start isLast blocks =
     (let match = check c
      in mapBlocks_loop check cs (i + 1)
           (if match \<and> \<not> isLast then i else start)
           match
           (if \<not> match \<and> isLast
            then blocks @ [\<lparr>bstart = start, bcount = i - start\<rparr>]
            else blocks))"

definition mapBlocks :: "gostring \<Rightarrow> (u8 \<Rightarrow> bool) \<Rightarrow> Block list" where
  "mapBlocks seq check =
     (let n = int (length seq);
          (start, isLast, blocks) = mapBlocks_loop check seq 0 0 False []
      in if isLast then blocks @ [\<lparr>bstart = start, bcount = n - start\<rparr>] else blocks)"

subsection \<open>The byte stream\<close>

text \<open>
  \<^verbatim>\<open>NewReader\<close> takes an \<^verbatim>\<open>io.ReadSeeker\<close>. The package itself (\<^verbatim>\<open>NewDataService\<close>)
  and its test hand it a \<^verbatim>\<open>bytes.Reader\<close> over the bytes of the file, and that is the
  stream of the model: the bytes \<open>s\<close> and the read position \<open>i\<close>.

  \<^verbatim>\<open>Read(b)\<close> at or past the end returns \<open>0, io.EOF\<close> and leaves \<open>b\<close> alone; otherwise
  it copies \<open>min(len(b), len(s) - i)\<close> bytes to the front of \<open>b\<close>, advances and returns
  that number and no error. The result is the number \<open>n\<close>, the error and the buffer.
  \<^verbatim>\<open>Seek(offset, whence)\<close> moves to an absolute position (\<open>whence = 0\<close>), relative to
  the current one (\<open>1\<close>) or to the end (\<open>2\<close>); a negative target is an error that leaves
  the position as it is. The callers in this package ignore the results of \<^verbatim>\<open>Seek\<close>.
\<close>

record stream =
  s_bytes :: "u8 list"
  s_pos :: nat

definition stream_Read :: "u8 list \<Rightarrow> stream \<Rightarrow> (nat \<times> error option \<times> u8 list) \<times> stream" where
  "stream_Read b st =
     (if length (s_bytes st) \<le> s_pos st then ((0, Some EOF, b), st)
      else let chunk = take (length b) (drop (s_pos st) (s_bytes st));
               n = length chunk
           in ((n, None, chunk @ drop n b), st\<lparr>s_pos := s_pos st + n\<rparr>))"

definition stream_Seek :: "int \<Rightarrow> nat \<Rightarrow> stream \<Rightarrow> stream" where
  "stream_Seek offset whence st =
     (if 2 < whence then st
      else let abs = (if whence = 0 then offset
                      else if whence = 1 then int (s_pos st) + offset
                      else int (length (s_bytes st)) + offset)
           in if abs < 0 then st else st\<lparr>s_pos := nat abs\<rparr>)"

subsection \<open>Header, index and the reader (twobit.go)\<close>

datatype ByteOrder = BigEndian | LittleEndian

record header =
  sig :: u32
  version :: u32
  count :: u32
  reserved :: u32
  byteOrder :: ByteOrder

text \<open>
  \<^verbatim>\<open>Reader\<close> and \<^verbatim>\<open>Writer\<close> are both the struct \<^verbatim>\<open>twoBit\<close>. A reader uses its
  fields \<^verbatim>\<open>reader\<close>, \<^verbatim>\<open>hdr\<close> and \<^verbatim>\<open>index\<close>, a writer only \<^verbatim>\<open>records\<close>; the model
  has one record type for each.
\<close>

record Reader =
  reader :: stream
  hdr :: header
  index :: "gostring \<rightharpoonup> int"

text \<open>\<^verbatim>\<open>binary.ByteOrder.Uint32\<close> on a buffer of four bytes.\<close>

fun Uint32 :: "ByteOrder \<Rightarrow> u8 list \<Rightarrow> u32" where
  "Uint32 LittleEndian b =
     ucast (b ! 0) OR push_bit 8 (ucast (b ! 1)) OR push_bit 16 (ucast (b ! 2))
       OR push_bit 24 (ucast (b ! 3))"
| "Uint32 BigEndian b =
     ucast (b ! 3) OR push_bit 8 (ucast (b ! 2)) OR push_bit 16 (ucast (b ! 1))
       OR push_bit 24 (ucast (b ! 0))"

definition parseHeader :: "Reader \<Rightarrow> error + Reader" where
  "parseHeader r =
     (case stream_Read (replicate 16 0) (reader r) of
        ((n, err, b), st) \<Rightarrow>
          (case err of
             Some e \<Rightarrow> Inl e
           | None \<Rightarrow>
               let sigBE = Uint32 BigEndian (take 4 b)
               in if sigBE \<noteq> SIG \<and> Uint32 LittleEndian (take 4 b) \<noteq> SIG then Inl InvalidSig
                  else
                    let bo = (if sigBE \<noteq> SIG then LittleEndian else BigEndian);
                        sg = Uint32 bo (take 4 b);
                        ver = Uint32 bo (take 4 (drop 4 b))
                    in if ver \<noteq> 0 then Inl (UnsupportedVersion ver)
                       else
                         let cnt = Uint32 bo (take 4 (drop 8 b));
                             res = Uint32 bo (take 4 (drop 12 b))
                         in if res \<noteq> 0 then Inl (HeaderReservedNonZero res)
                            else Inr (r\<lparr>reader := st,
                                        hdr := \<lparr>sig = sg, version = ver, count = cnt,
                                                reserved = res, byteOrder = bo\<rparr>\<rparr>)))"

text \<open>
  The loop \<^verbatim>\<open>for i := 0; i < r.Count(); i++\<close> of \<^verbatim>\<open>parseIndex\<close>; the first argument
  counts the entries that remain. Each entry is read into three fresh buffers.
\<close>

fun parseIndex_loop ::
  "nat \<Rightarrow> ByteOrder \<Rightarrow> stream \<Rightarrow> (gostring \<rightharpoonup> int) \<Rightarrow> error + (stream \<times> (gostring \<rightharpoonup> int))" where
  "parseIndex_loop 0 bo st idx = Inr (st, idx)"
| "parseIndex_loop (Suc k) bo st idx =
     (case stream_Read (replicate 1 0) st of
        ((n1, err1, size'), st1) \<Rightarrow>
          (case err1 of
             Some e \<Rightarrow> Inl (FailedReadFileIndex e)
           | None \<Rightarrow>
               (case stream_Read (replicate (unat (size' ! 0)) 0) st1 of
                  ((n2, err2, name), st2) \<Rightarrow>
                    (case err2 of
                       Some e \<Rightarrow> Inl (FailedReadFileIndex e)
                     | None \<Rightarrow>
                         (case stream_Read (replicate 4 0) st2 of
                            ((n3, err3, offset), st3) \<Rightarrow>
                              (case err3 of
                                 Some e \<Rightarrow> Inl (FailedReadFileIndex e)
                               | None \<Rightarrow>
                                   parseIndex_loop k bo st3
                                     (idx(name \<mapsto> uint (Uint32 bo offset)))))))))"

definition parseIndex :: "Reader \<Rightarrow> error + Reader" where
  "parseIndex r =
     (case parseIndex_loop (unat (count (hdr r))) (byteOrder (hdr r)) (reader r) Map.empty of
        Inl e \<Rightarrow> Inl e
      | Inr (st, idx) \<Rightarrow> Inr (r\<lparr>reader := st, index := idx\<rparr>))"

text \<open>
  \<^verbatim>\<open>NewReader\<close>. The header of the fresh reader is the zero value; its byte order is
  \<^verbatim>\<open>nil\<close> in Go and assigned by \<^verbatim>\<open>parseHeader\<close> before any use.
\<close>

definition NewReader :: "stream \<Rightarrow> error + Reader" where
  "NewReader st =
     (let tb = \<lparr>reader = st,
                hdr = \<lparr>sig = 0, version = 0, count = 0, reserved = 0, byteOrder = BigEndian\<rparr>,
                index = Map.empty\<rparr>
      in case parseHeader tb of
           Inl e \<Rightarrow> Inl e
         | Inr tb1 \<Rightarrow> parseIndex tb1)"

text \<open>
  The loops \<^verbatim>\<open>for i := range starts\<close> and \<^verbatim>\<open>for i := range sizes\<close> of
  \<^verbatim>\<open>parseBlockCoords\<close>, which read into the one buffer \<open>buf\<close>. The first argument is the
  message of the loop's error, the second counts the values that remain.
\<close>

fun readUint32s ::
  "(error \<Rightarrow> error) \<Rightarrow> nat \<Rightarrow> ByteOrder \<Rightarrow> u8 list \<Rightarrow> stream \<Rightarrow> error + (u32 list \<times> u8 list \<times> stream)" where
  "readUint32s msg 0 bo buf st = Inr ([], buf, st)"
| "readUint32s msg (Suc k) bo buf st =
     (case stream_Read buf st of
        ((n, err, buf1), st1) \<Rightarrow>
          (case err of
             Some e \<Rightarrow> Inl (msg e)
           | None \<Rightarrow>
               (case readUint32s msg k bo buf1 st1 of
                  Inl e \<Rightarrow> Inl e
                | Inr (vs, buf2, st2) \<Rightarrow> Inr (Uint32 bo buf1 # vs, buf2, st2))))"

definition parseBlockCoords :: "Reader \<Rightarrow> error + (Block list \<times> Reader)" where
  "parseBlockCoords r =
     (case stream_Read (replicate 4 0) (reader r) of
        ((n, err, buf), st1) \<Rightarrow>
          (case err of
             Some e \<Rightarrow> Inl (FailedReadBlockCount e)
           | None \<Rightarrow>
               let cnt = Uint32 (byteOrder (hdr r)) buf
               in (case readUint32s FailedBlockStart (unat cnt) (byteOrder (hdr r)) buf st1 of
                     Inl e \<Rightarrow> Inl e
                   | Inr (starts, buf2, st2) \<Rightarrow>
                       (case readUint32s FailedBlockSize (unat cnt) (byteOrder (hdr r)) buf2 st2 of
                          Inl e \<Rightarrow> Inl e
                        | Inr (sizes, buf3, st3) \<Rightarrow>
                            Inr (map (\<lambda>(s, c). \<lparr>bstart = uint s, bcount = uint c\<rparr>) (zip starts sizes),
                                 r\<lparr>reader := st3\<rparr>)))))"

definition parseRecord :: "Reader \<Rightarrow> gostring \<Rightarrow> bool \<Rightarrow> error + (seqRecord \<times> Reader)" where
  "parseRecord r name coords =
     (case index r name of
        None \<Rightarrow> Inl (InvalidSequenceName name)
      | Some offset \<Rightarrow>
          (case stream_Read (replicate 4 0) (stream_Seek offset 0 (reader r)) of
             ((n, err, buf), st1) \<Rightarrow>
               (case err of
                  Some e \<Rightarrow> Inl (FailedReadDnaSize e)
                | None \<Rightarrow>
                    let rc = \<lparr>dnaSize = Uint32 (byteOrder (hdr r)) buf, nBlocks = [], mBlocks = [],
                              rec_reserved = 0, sequence = []\<rparr>
                    in if coords
                       then (case parseBlockCoords (r\<lparr>reader := st1\<rparr>) of
                               Inl e \<Rightarrow> Inl (FailedReadNBlocks e)
                             | Inr (nb, r2) \<Rightarrow>
                                 (case parseBlockCoords r2 of
                                    Inl e \<Rightarrow> Inl (FailedReadMBlocks e)
                                  | Inr (mb, r3) \<Rightarrow>
                                      (case stream_Read buf (reader r3) of
                                         ((n4, err4, buf4), st4) \<Rightarrow>
                                           (case err4 of
                                              Some e \<Rightarrow> Inl (FailedReadReserved e)
                                            | None \<Rightarrow>
                                                let res = Uint32 (byteOrder (hdr r)) buf4
                                                in if res \<noteq> 0 then Inl InvalidReserved
                                                   else Inr (rc\<lparr>nBlocks := nb, mBlocks := mb,
                                                                rec_reserved := res\<rparr>,
                                                             r3\<lparr>reader := st4\<rparr>)))))
                       else Inr (rc, r\<lparr>reader := st1\<rparr>))))"

subsection \<open>ReadRange\<close>

text \<open>
  The loop \<^verbatim>\<open>for k := 0; k < n; k++\<close> that decodes the bytes \<open>buf[0..n)\<close> of one chunk
  into \<open>dna\<close> from position \<open>i * 4\<close> on and counts \<open>i\<close> up; the last argument is
  \<open>n - k\<close>. No more than \<open>size\<close> bytes are decoded in all, so every write lies inside
  the \<open>size * 4\<close> bytes of \<open>dna\<close>.
\<close>

fun decodeBuf :: "u8 list \<Rightarrow> nat \<Rightarrow> u8 list \<Rightarrow> nat \<Rightarrow> nat \<Rightarrow> u8 list \<times> nat" where
  "decodeBuf dna i buf k 0 = (dna, i)"
| "decodeBuf dna i buf k (Suc m) =
     decodeBuf (decode4 dna (i * 4) 4 (buf ! k)) (i + 1) buf (k + 1) m"

text \<open>
  The loop \<^verbatim>\<open>for c := 0; c < chunks; c++\<close>; the first argument is \<open>chunks - c\<close>.
  \<^verbatim>\<open>Read\<close> fills the slice \<open>buf[0:sz]\<close>, which shares its bytes with \<open>buf\<close>.
\<close>

fun readChunks ::
  "nat \<Rightarrow> int \<Rightarrow> nat \<Rightarrow> u8 list \<Rightarrow> u8 list \<Rightarrow> stream \<Rightarrow> error + (u8 list \<times> stream)" where
  "readChunks 0 size' i dna buf st = Inr (dna, st)"
| "readChunks (Suc c) size' i dna buf st =
     (let sz = (if int i + defaultBufSize > size' then go_rem size' defaultBufSize
                else defaultBufSize)
      in (case stream_Read (take (nat sz) buf) st of
            ((n, err, b), st1) \<Rightarrow>
              if int n \<noteq> sz then Inl (FailedReadDnaBytes sz)
              else if err \<noteq> None \<and> err \<noteq> Some EOF then Inl (FailedReadDnaBytesErr (the err))
              else (case decodeBuf dna i (b @ drop (nat sz) buf) 0 n of
                      (dna1, i1) \<Rightarrow> readChunks c size' i1 dna1 (b @ drop (nat sz) buf) st1)))"

text \<open>
  The overlay of one block of unknown bases: \<^verbatim>\<open>for i := 0; i < cnt; i++\<close> with the
  test of \<open>idx\<close> before the write. The first argument is \<open>cnt - i\<close>.
\<close>

fun overlayN_loop :: "nat \<Rightarrow> int \<Rightarrow> u8 list \<Rightarrow> error + u8 list" where
  "overlayN_loop 0 idx seq = Inr seq"
| "overlayN_loop (Suc k) idx seq =
     (if int (length seq) \<le> idx then Inr seq
      else if idx < 0 then Inl PanicIndexOutOfRange
      else overlayN_loop k (idx + 1) (seq[nat idx := BASE_N]))"

fun overlayN :: "Block list \<Rightarrow> int \<Rightarrow> int \<Rightarrow> u8 list \<Rightarrow> error + u8 list" where
  "overlayN [] start end seq = Inr seq"
| "overlayN (b # bs) start end seq =
     (if Length b < start \<or> bstart b > end then overlayN bs start end seq
      else
        let idx = bstart b - start;
            cnt = bcount b;
            (cnt, idx) = (if idx < 0 then (cnt + idx, 0) else (cnt, idx))
        in (case overlayN_loop (nat cnt) idx seq of
              Inl e \<Rightarrow> Inl e
            | Inr seq1 \<Rightarrow> overlayN bs start end seq1))"

text \<open>
  The overlay of one masked block: the write \<^verbatim>\<open>seq[idx] = seq[idx] + 32\<close> comes first,
  the test of \<open>idx\<close> after it. An index outside the slice is a run-time panic.
\<close>

fun overlayM_loop :: "nat \<Rightarrow> int \<Rightarrow> u8 list \<Rightarrow> error + u8 list" where
  "overlayM_loop 0 idx seq = Inr seq"
| "overlayM_loop (Suc k) idx seq =
     (if idx < 0 \<or> int (length seq) \<le> idx then Inl PanicIndexOutOfRange
      else
        let seq1 = seq[nat idx := seq ! nat idx + 32]
        in if int (length seq1) \<le> idx + 1 then Inr seq1
           else overlayM_loop k (idx + 1) seq1)"

fun overlayM :: "Block list \<Rightarrow> int \<Rightarrow> int \<Rightarrow> u8 list \<Rightarrow> error + u8 list" where
  "overlayM [] start end seq = Inr seq"
| "overlayM (b # bs) start end seq =
     (if Length b < start \<or> bstart b > end then overlayM bs start end seq
      else
        let idx = bstart b - start;
            cnt = bcount b;
            (cnt, idx) = (if idx < 0 then (cnt + idx, 0) else (cnt, idx))
        in (case overlayM_loop (nat cnt) idx seq of
              Inl e \<Rightarrow> Inl e
            | Inr seq1 \<Rightarrow> overlayM bs start end seq1))"

text \<open>
  The middle of \<^verbatim>\<open>ReadRange\<close>, from \<^verbatim>\<open>bases = end - start\<close> to the slice
  \<^verbatim>\<open>seq := dna[(start%4) : (start%4)+bases]\<close>, for the clamped range: the seek, the read
  of the packed span in chunks, the decoding and the window.
\<close>

definition readWindow :: "stream \<Rightarrow> int \<Rightarrow> int \<Rightarrow> error + (u8 list \<times> stream)" where
  "readWindow st0 start end =
     (let bases = end - start;
          size' = packedSize bases;
          (size', st) =
            (if start > 0
             then let shift = packedSize start;
                      (shift, size') = (if go_rem start 4 \<noteq> 0 then (shift - 1, size' + 1)
                                       else (shift, size'))
                  in (size', stream_Seek shift 1 st0)
             else (size', st0));
          dna = replicate (nat (size' * 4)) 0;
          chunks = go_quot size' defaultBufSize;
          chunks = (if go_rem size' defaultBufSize > 0 then chunks + 1 else chunks);
          buf = replicate (nat defaultBufSize) 0
      in (case readChunks (nat chunks) size' 0 dna buf st of
            Inl e \<Rightarrow> Inl e
          | Inr (dna1, st1) \<Rightarrow>
              if int (length dna1) < go_rem start 4 + bases then Inl PanicSliceBounds
              else Inr (take (nat bases) (drop (nat (go_rem start 4)) dna1), st1)))"

text \<open>
  \<^verbatim>\<open>ReadRange\<close>: the record, the clamping of the range, the range check, the window
  and the two overlays. The result is the sequence and the reader with its stream where
  the reads left it.
\<close>

definition ReadRange :: "Reader \<Rightarrow> gostring \<Rightarrow> int \<Rightarrow> int \<Rightarrow> error + (gostring \<times> Reader)" where
  "ReadRange r name start end =
     (case parseRecord r name True of
        Inl e \<Rightarrow> Inl e
      | Inr (rc, r1) \<Rightarrow>
          let bases = uint (dnaSize rc);
              start = (if start < 0 then 0 else start);
              end = (if end > bases then bases else end);
              end = (if end = 0 \<or> end < 0 then bases else end)
          in if end \<le> start then Inl (InvalidRange start end)
             else (case readWindow (reader r1) start end of
                     Inl e \<Rightarrow> Inl e
                   | Inr (seq, st1) \<Rightarrow>
                       (case overlayN (nBlocks rc) start end seq of
                          Inl e \<Rightarrow> Inl e
                        | Inr seq1 \<Rightarrow>
                            (case overlayM (mBlocks rc) start end seq1 of
                               Inl e \<Rightarrow> Inl e
                             | Inr seq2 \<Rightarrow> Inr (seq2, r1\<lparr>reader := st1\<rparr>)))))"

definition Read :: "Reader \<Rightarrow> gostring \<Rightarrow> error + (gostring \<times> Reader)" where
  "Read r name = ReadRange r name 0 0"

subsection \<open>The collaborator GenomicInterval\<close>

record twobitResults =
  tb :: Reader

definition GenomicInterval ::
  "twobitResults \<Rightarrow> gostring \<Rightarrow> int \<Rightarrow> int \<Rightarrow> error + (gostring \<times> twobitResults)" where
  "GenomicInterval service chr start end =
     (if chr = [] then Inl BlankChromosome
      else
        let chrName = (if take 3 chr \<noteq> bytes_of ''chr'' then bytes_of ''chr'' @ chr else chr);
            chrName = (if chrName = bytes_of ''chrMT'' then bytes_of ''chrM'' else chrName)
        in if start = end then Inr ([], service)
           else (case ReadRange (tb service) chrName start end of
                   Inl e \<Rightarrow> Inl e
                 | Inr (seq, r1) \<Rightarrow> Inr (seq, service\<lparr>tb := r1\<rparr>)))"

subsection \<open>The writer\<close>

record Writer =
  records :: "gostring \<rightharpoonup> seqRecord"

definition NewWriter :: Writer where
  "NewWriter = \<lparr>records = Map.empty\<rparr>"

text \<open>The two predicates that \<^verbatim>\<open>Add\<close> hands to \<^verbatim>\<open>mapBlocks\<close>.\<close>

definition isUnknown :: "u8 \<Rightarrow> bool" where
  "isUnknown r \<longleftrightarrow> r = 78 \<or> r = 110"

definition isLower :: "u8 \<Rightarrow> bool" where
  "isLower r \<longleftrightarrow> 97 \<le> r \<and> r \<le> 122"

definition Add :: "Writer \<Rightarrow> gostring \<Rightarrow> gostring \<Rightarrow> error + Writer" where
  "Add w name seq =
     (if length name > 255 then Inl NameTooLong
      else
        let rc = \<lparr>dnaSize = word_of_nat (length seq),
                  nBlocks = mapBlocks seq isUnknown,
                  mBlocks = mapBlocks seq isLower,
                  rec_reserved = 0, sequence = []\<rparr>
        in (case Pack seq of
              Inl e \<Rightarrow> Inl e
            | Inr pack \<Rightarrow> Inr (w\<lparr>records := (records w)(name \<mapsto> rc\<lparr>sequence := pack\<rparr>)\<rparr>)))"

text \<open>\<^verbatim>\<open>binary.LittleEndian.PutUint32\<close>, as the four bytes it writes.\<close>

definition PutUint32 :: "u32 \<Rightarrow> u8 list" where
  "PutUint32 v = [ucast v, ucast (drop_bit 8 v), ucast (drop_bit 16 v), ucast (drop_bit 24 v)]"

text \<open>
  \<^verbatim>\<open>WriteTo\<close> ranges over the map \<^verbatim>\<open>w.records\<close> once, to collect \<open>names\<close>, and Go
  leaves the order of that iteration open. The order is the second argument of the
  model: \<open>names\<close> lists the keys of the map, each once, so \<^verbatim>\<open>len(w.records)\<close> is the
  length of \<open>names\<close>. Each buffer is filled from its first to its last byte, and the
  model appends the bytes in that order. The output stream is the list of bytes written.
\<close>

fun idxSize_loop :: "gostring list \<Rightarrow> int \<Rightarrow> int" where
  "idxSize_loop [] idxSize = idxSize"
| "idxSize_loop (name # names) idxSize = idxSize_loop names (idxSize + (5 + int (length name)))"

fun writeIndex :: "Writer \<Rightarrow> gostring list \<Rightarrow> int \<Rightarrow> error + u8 list" where
  "writeIndex w [] offset = Inr []"
| "writeIndex w (name # names) offset =
     (case records w name of
        None \<Rightarrow> Inl PanicNilPointer
      | Some rc \<Rightarrow>
          (case writeIndex w names (offset + size_rec rc) of
             Inl e \<Rightarrow> Inl e
           | Inr rest \<Rightarrow>
               Inr (word_of_nat (length name) # name @ PutUint32 (word_of_int offset) @ rest)))"

definition writeRecord :: "seqRecord \<Rightarrow> u8 list" where
  "writeRecord rc =
     PutUint32 (dnaSize rc)
     @ PutUint32 (word_of_nat (length (nBlocks rc)))
     @ concat (map (\<lambda>b. PutUint32 (word_of_int (bstart b))) (nBlocks rc))
     @ concat (map (\<lambda>b. PutUint32 (word_of_int (bcount b))) (nBlocks rc))
     @ PutUint32 (word_of_nat (length (mBlocks rc)))
     @ concat (map (\<lambda>b. PutUint32 (word_of_int (bstart b))) (mBlocks rc))
     @ concat (map (\<lambda>b. PutUint32 (word_of_int (bcount b))) (mBlocks rc))
     @ PutUint32 0
     @ sequence rc"

fun writeRecords :: "Writer \<Rightarrow> gostring list \<Rightarrow> error + u8 list" where
  "writeRecords w [] = Inr []"
| "writeRecords w (name # names) =
     (case records w name of
        None \<Rightarrow> Inl PanicNilPointer
      | Some rc \<Rightarrow>
          (case writeRecords w names of
             Inl e \<Rightarrow> Inl e
           | Inr rest \<Rightarrow> Inr (writeRecord rc @ rest)))"

definition WriteTo :: "Writer \<Rightarrow> gostring list \<Rightarrow> error + u8 list" where
  "WriteTo w names =
     (let buf = PutUint32 SIG @ PutUint32 0 @ PutUint32 (word_of_nat (length names)) @ PutUint32 0;
          idxSize = idxSize_loop names 0
      in (case writeIndex w names (16 + idxSize) of
            Inl e \<Rightarrow> Inl e
          | Inr ibuf \<Rightarrow>
              (case writeRecords w names of
                 Inl e \<Rightarrow> Inl e
               | Inr rbuf \<Rightarrow> Inr (buf @ ibuf @ rbuf))))"

text \<open>
  The full cycle on a fresh writer: \<^verbatim>\<open>NewWriter\<close>, \<^verbatim>\<open>Add(name, seq)\<close>, \<^verbatim>\<open>WriteTo\<close>,
  \<^verbatim>\<open>NewReader\<close> on the bytes written, and \<^verbatim>\<open>ReadRange(name, start, end)\<close>.
\<close>

definition writeThenRead :: "gostring \<Rightarrow> gostring \<Rightarrow> int \<Rightarrow> int \<Rightarrow> error + gostring" where
  "writeThenRead name seq start end =
     (case Add NewWriter name seq of
        Inl e \<Rightarrow> Inl e
      | Inr w \<Rightarrow>
          (case WriteTo w [name] of
             Inl e \<Rightarrow> Inl e
           | Inr out \<Rightarrow>
               (case NewReader \<lparr>s_bytes = out, s_pos = 0\<rparr> of
                  Inl e \<Rightarrow> Inl e
                | Inr r \<Rightarrow>
                    (case ReadRange r name start end of
                       Inl e \<Rightarrow> Inl e
                     | Inr (s, r1) \<Rightarrow> Inr s))))"

subsection \<open>Auxiliary notions for the statements\<close>

text \<open>The alphabet of bases that the codec accepts, in either case.\<close>

definition alphabet :: "u8 set" where
  "alphabet = set (bytes_of ''ACGTNacgtn'')"

text \<open>The base character of the two low bits of a byte, and the four bases of a byte.\<close>

definition nt :: "u8 \<Rightarrow> u8" where
  "nt x = BYTES2NT ! unat (x AND 3)"

definition unpackByte :: "u8 \<Rightarrow> u8 list" where
  "unpackByte base = [nt (drop_bit 6 base), nt (drop_bit 4 base), nt (drop_bit 2 base), nt base]"

text \<open>
  The unsupported characters of a string, the 2-bit code that \<^verbatim>\<open>Pack\<close> uses at
  position \<open>j\<close> (the code of \<open>T\<close> past the end), and the byte packed from the four
  positions from \<open>idx\<close> on.
\<close>

definition bad :: "gostring \<Rightarrow> gostring" where
  "bad s = filter (\<lambda>c. NT2BYTES c = None) s"

definition cd :: "gostring \<Rightarrow> nat \<Rightarrow> u8" where
  "cd s j = (if j < length s then (case NT2BYTES (s ! j) of Some v \<Rightarrow> v | None \<Rightarrow> 0) else 0)"

definition packByte :: "gostring \<Rightarrow> nat \<Rightarrow> u8" where
  "packByte s idx =
     push_bit 2 (push_bit 2 (push_bit 2 (push_bit 2 0 + cd s idx) + cd s (idx + 1)) + cd s (idx + 2))
       + cd s (idx + 3)"

text \<open>
  What packing alone keeps of a character, in the words of the specification: the
  character in upper case, with \<open>N\<close> and \<open>n\<close> rendered as upper-case \<open>T\<close>.
\<close>

definition collapse :: "u8 \<Rightarrow> u8" where
  "collapse c = (if c = BASE_N \<or> c = BASE_N + 32 then BASE_T
                 else if 97 \<le> c \<and> c \<le> 122 then c - 32 else c)"

text \<open>
  The clamping of a range in the words of the specification: \<open>start = max(start, 0)\<close>,
  and \<open>end = dnaSize\<close> if \<open>end \<le> 0\<close> or \<open>end > dnaSize\<close>; and \<open>ceil(n/4)\<close>.
\<close>

definition clampStart :: "int \<Rightarrow> int" where
  "clampStart start = max start 0"

definition clampEnd :: "int \<Rightarrow> int \<Rightarrow> int" where
  "clampEnd bases end = (if end \<le> 0 \<or> end > bases then bases else end)"

definition ceil4 :: "int \<Rightarrow> int" where
  "ceil4 n = - ((- n) div 4)"

text \<open>
  A block covers the positions of its half-open interval; the blocks of a list are
  separated when each ends before the next begins, with a gap between them. The last
  notion is the invariant of the scan of \<^verbatim>\<open>mapBlocks\<close> after the prefix \<open>pre\<close>.
\<close>

definition covers :: "Block \<Rightarrow> int \<Rightarrow> bool" where
  "covers b j \<longleftrightarrow> bstart b \<le> j \<and> j < Length b"

definition separated :: "Block list \<Rightarrow> bool" where
  "separated bs \<longleftrightarrow> (\<forall>k k'. k < k' \<and> k' < length bs \<longrightarrow> Length (bs ! k) < bstart (bs ! k'))"

definition scan_inv :: "(u8 \<Rightarrow> bool) \<Rightarrow> gostring \<Rightarrow> int \<Rightarrow> bool \<Rightarrow> Block list \<Rightarrow> bool" where
  "scan_inv p pre start isLast blocks \<longleftrightarrow>
     (\<forall>b\<in>set blocks. 0 \<le> bstart b \<and> 0 < bcount b
          \<and> Length b < (if isLast then start else int (length pre)))
   \<and> separated blocks
   \<and> (\<forall>j<length pre. ((\<exists>b\<in>set blocks. covers b (int j)) \<or> (isLast \<and> start \<le> int j)) \<longleftrightarrow> p (pre ! j))
   \<and> (isLast \<longrightarrow> 0 \<le> start \<and> start < int (length pre))"

text \<open>
  The distance of the seek and the length of the packed span of a range read, in the
  words of the specification: \<open>ceil(start/4)\<close> bytes, one less when \<open>start\<close> is not a
  multiple of four; \<open>ceil((end - start)/4)\<close> bytes, one more in that case.
\<close>

definition seekDistance :: "int \<Rightarrow> nat" where
  "seekDistance s = nat (ceil4 s - (if s mod 4 \<noteq> 0 then 1 else 0))"

definition spanLength :: "int \<Rightarrow> int \<Rightarrow> nat" where
  "spanLength s e = nat (ceil4 (e - s) + (if s mod 4 \<noteq> 0 then 1 else 0))"

text \<open>
  What \<^verbatim>\<open>ReadRange\<close> does with a parsed record and the clamped range: the range check,
  the window and the overlays.
\<close>

definition afterClamp :: "seqRecord \<Rightarrow> Reader \<Rightarrow> int \<Rightarrow> int \<Rightarrow> error + (gostring \<times> Reader)" where
  "afterClamp rc r1 s e =
     (if e \<le> s then Inl (InvalidRange s e)
      else (case readWindow (reader r1) s e of
              Inl x \<Rightarrow> Inl x
            | Inr (seq, st1) \<Rightarrow>
                (case overlayN (nBlocks rc) s e seq of
                   Inl x \<Rightarrow> Inl x
                 | Inr seq1 \<Rightarrow>
                     (case overlayM (mBlocks rc) s e seq1 of
                        Inl x \<Rightarrow> Inl x
                      | Inr seq2 \<Rightarrow> Inr (seq2, r1\<lparr>reader := st1\<rparr>)))))"

text \<open>The sequence of a result of \<^verbatim>\<open>ReadRange\<close>, without the reader.\<close>

definition seqOf :: "error + (gostring \<times> Reader) \<Rightarrow> error + gostring" where
  "seqOf res = (case res of Inl x \<Rightarrow> Inl x | Inr (s, r1) \<Rightarrow> Inr s)"

text \<open>
  An example: the 2bit file of one sequence \<open>chr1\<close> of ten bases, all \<open>A\<close> but for
  the unknown bases at the positions 2 to 4 (\<open>AANNNAAAAA\<close>, the block \<open>{start: 2,
  count: 3}\<close>), and the reader that \<^verbatim>\<open>NewReader\<close> builds from it.
\<close>

definition exampleFile :: "u8 list" where
  "exampleFile =
     [67, 39, 65, 26, 0, 0, 0, 0, 1, 0, 0, 0, 0, 0, 0, 0,
      4, 99, 104, 114, 49, 25, 0, 0, 0,
      10, 0, 0, 0, 1, 0, 0, 0, 2, 0, 0, 0, 3, 0, 0, 0, 0, 0, 0, 0, 0, 0, 0, 0,
      160, 42, 160]"

definition exampleReader :: Reader where
  "exampleReader =
     \<lparr>reader = \<lparr>s_bytes = exampleFile, s_pos = 25\<rparr>,
      hdr = \<lparr>sig = SIG, version = 0, count = 1, reserved = 0, byteOrder = LittleEndian\<rparr>,
      index = [bytes_of ''chr1'' \<mapsto> 25]\<rparr>"

section \<open>Pack and Unpack\<close>

lemma alphabet_eq: "alphabet = {65, 67, 71, 84, 78, 97, 99, 103, 116, 110}"
  by (simp add: alphabet_def bytes_of_def)

lemma dom_NT2BYTES: "dom NT2BYTES = alphabet"
  unfolding alphabet_eq by (auto simp: NT2BYTES_def BASE_N_def BASE_T_def BASE_C_def BASE_A_def BASE_G_def split: if_splits)

lemma NT2BYTES_T: "NT2BYTES BASE_T = Some 0"
  by (simp add: NT2BYTES_def BASE_N_def BASE_T_def BASE_C_def BASE_A_def BASE_G_def)

lemma NT2BYTES_le3: "NT2BYTES c = Some v \<Longrightarrow> v \<le> 3"
  by (auto simp: NT2BYTES_def BASE_N_def BASE_T_def BASE_C_def BASE_A_def BASE_G_def split: if_splits)

lemma decode4_4:
  "decode4 buf off 4 base =
     buf[Suc (Suc (Suc off)) := nt base, Suc (Suc off) := nt (drop_bit 2 base), Suc off := nt (drop_bit 4 base), off := nt (drop_bit 6 base)]"
proof -
  have "decode4 buf off 4 base = decode4 buf off (Suc (Suc (Suc (Suc 0)))) base"
    by (simp add: eval_nat_numeral)
  also have "\<dots> = buf[Suc (Suc (Suc off)) := nt base, Suc (Suc off) := nt (drop_bit 2 base), Suc off := nt (drop_bit 4 base), off := nt (drop_bit 6 base)]"
    by (simp only: decode4.simps) (simp add: nt_def drop_bit_drop_bit)
  finally show ?thesis .
qed

lemma decode4_fresh: "decode4 (replicate 4 0) 0 4 base = unpackByte base"
  by (simp add: decode4_4 unpackByte_def) (simp add: eval_nat_numeral)

lemma Unpack_loop_eq: "Unpack_loop dna raw = dna @ concat (map unpackByte raw)"
  by (induction raw arbitrary: dna) (simp_all add: decode4_fresh)

lemma length_unpackByte: "length (unpackByte b) = 4"
  by (simp add: unpackByte_def)

lemma length_concat_unpack: "length (concat (map unpackByte raw)) = 4 * length raw"
  by (induction raw) (simp_all add: length_unpackByte)

lemma Unpack_eq:
  "Unpack raw sz spare =
     (if 0 \<le> sz \<and> sz \<le> 4 * int (length raw) + int spare
      then Inr (take (nat sz) (concat (map unpackByte raw) @ replicate spare 0))
      else Inl PanicSliceBounds)"
  by (simp add: Unpack_def Unpack_loop_eq length_concat_unpack)

lemma Unpack_decoded:
  "0 \<le> sz \<Longrightarrow> sz \<le> 4 * int (length raw) \<Longrightarrow>
     Unpack raw sz spare = Inr (take (nat sz) (concat (map unpackByte raw)))"
  by (simp add: Unpack_eq length_concat_unpack)

lemma bad_Nil [simp]: "bad [] = []"
  by (simp add: bad_def)

lemma bad_Cons: "bad (c # cs) = (if NT2BYTES c = None then c # bad cs else bad cs)"
  by (simp add: bad_def)

lemma bad_append: "bad (xs @ ys) = bad xs @ bad ys"
  by (simp add: bad_def)

lemma take_Suc_drop: "take (Suc k) (drop idx s) = (if idx < length s then s ! idx # take k (drop (Suc idx) s) else [])"
  by (simp add: Cons_nth_drop_Suc[symmetric])

lemma pack4_bad:
  "bad (take k (drop idx s)) \<noteq> [] \<Longrightarrow>
     pack4 s k b idx = Inl (UnsupportedBase (hd (bad (take k (drop idx s)))))"
proof (induction k arbitrary: b idx)
  case 0
  then show ?case by simp
next
  case (Suc k)
  show ?case
  proof (cases "idx < length s")
    case False
    with Suc.prems show ?thesis by simp
  next
    case True
    show ?thesis
    proof (cases "NT2BYTES (s ! idx)")
      case None
      with True show ?thesis by (simp add: take_Suc_drop bad_Cons)
    next
      case (Some v)
      with True Suc.prems have "bad (take k (drop (Suc idx) s)) \<noteq> []"
        by (simp add: take_Suc_drop bad_Cons)
      from Suc.IH[OF this] Some True show ?thesis
        by (simp add: take_Suc_drop bad_Cons)
    qed
  qed
qed

lemma pack4_good:
  "bad (take k (drop idx s)) = [] \<Longrightarrow>
     pack4 s k b idx = Inr (foldl (\<lambda>b j. push_bit 2 b + cd s j) b [idx..<idx + k], idx + k)"
proof (induction k arbitrary: b idx)
  case 0
  then show ?case by simp
next
  case (Suc k)
  have u: "[idx..<idx + Suc k] = idx # [Suc idx..<Suc idx + k]" by (simp add: upt_rec)
  show ?case
  proof (cases "idx < length s")
    case False
    then have "bad (take k (drop (Suc idx) s)) = []" by simp
    from Suc.IH[OF this, of "push_bit 2 b + 0"] False show ?thesis
      unfolding u by (simp add: NT2BYTES_T cd_def del: upt_Suc)
  next
    case True
    with Suc.prems obtain v where v: "NT2BYTES (s ! idx) = Some v" and rest: "bad (take k (drop (Suc idx) s)) = []"
      by (auto simp: take_Suc_drop bad_Cons split: if_splits)
    from Suc.IH[OF rest, of "push_bit 2 b + v"] v True show ?thesis
      unfolding u by (simp add: cd_def del: upt_Suc)
  qed
qed

lemma pack4_good4:
  "bad (take 4 (drop idx s)) = [] \<Longrightarrow> pack4 s 4 0 idx = Inr (packByte s idx, idx + 4)"
proof -
  assume g: "bad (take 4 (drop idx s)) = []"
  have u: "[idx..<idx + 4] = [idx, idx + 1, idx + 2, idx + 3]" by (simp add: upt_rec)
  show ?thesis unfolding pack4_good[OF g] u by (simp add: packByte_def)
qed

lemma bad_drop_split: "bad (drop idx s) = bad (take 4 (drop idx s)) @ bad (drop (idx + 4) s)"
proof -
  have "drop idx s = take 4 (drop idx s) @ drop 4 (drop idx s)" by (rule append_take_drop_id[symmetric])
  then have "bad (drop idx s) = bad (take 4 (drop idx s)) @ bad (drop 4 (drop idx s))"
    by (metis bad_append)
  then show ?thesis by (simp add: add.commute)
qed

lemma Pack_loop_bad:
  "bad (drop idx s) \<noteq> [] \<Longrightarrow> length s \<le> idx + 4 * (length out - i) \<Longrightarrow>
     Pack_loop s out i idx = Inl (UnsupportedBase (hd (bad (drop idx s))))"
proof (induction s out i idx rule: Pack_loop.induct)
  case (1 s out i idx)
  show ?case
  proof (cases "i < length out")
    case False
    with 1 show ?thesis by simp
  next
    case True
    show ?thesis
    proof (cases "bad (take 4 (drop idx s)) = []")
      case False
      then show ?thesis using True
        by (subst Pack_loop.simps) (simp add: pack4_bad bad_drop_split[of idx s])
    next
      case good: True
      then have p: "pack4 s 4 0 idx = Inr (packByte s idx, idx + 4)" by (rule pack4_good4)
      have b: "bad (drop (idx + 4) s) \<noteq> []" using 1(2) good by (simp add: bad_drop_split[of idx s])
      have l: "length s \<le> (idx + 4) + 4 * (length (out[i := packByte s idx]) - (i + 1))"
        using 1(3) True by simp
      have "Pack_loop s (out[i := packByte s idx]) (i + 1) (idx + 4) = Inl (UnsupportedBase (hd (bad (drop (idx + 4) s))))"
        using "1.IH"[OF True p refl b l] .
      then show ?thesis using True p good
        by (subst Pack_loop.simps) (simp add: bad_drop_split[of idx s])
    qed
  qed
qed

lemma Pack_loop_good:
  "bad (drop idx s) = [] \<Longrightarrow>
     Pack_loop s out i idx = Inr (take i out @ map (\<lambda>k. packByte s (idx + 4 * (k - i))) [i..<length out])"
proof (induction s out i idx rule: Pack_loop.induct)
  case (1 s out i idx)
  show ?case
  proof (cases "i < length out")
    case False
    then show ?thesis by simp
  next
    case True
    from 1(2) have good: "bad (take 4 (drop idx s)) = []" and rest: "bad (drop (idx + 4) s) = []"
      by (simp_all add: bad_drop_split[of idx s])
    have p: "pack4 s 4 0 idx = Inr (packByte s idx, idx + 4)" using good by (rule pack4_good4)
    have ih: "Pack_loop s (out[i := packByte s idx]) (i + 1) (idx + 4) =
        Inr (take (i + 1) (out[i := packByte s idx]) @ map (\<lambda>k. packByte s (idx + 4 + 4 * (k - (i + 1)))) [i + 1..<length (out[i := packByte s idx])])"
      using "1.IH"[OF True p refl rest] .
    have t: "take (i + 1) (out[i := packByte s idx]) = take i out @ [packByte s idx]"
      using True by (simp add: take_Suc_conv_app_nth)
    have m: "map (\<lambda>k. packByte s (idx + 4 + 4 * (k - (i + 1)))) [i + 1..<length out] = map (\<lambda>k. packByte s (idx + 4 * (k - i))) [i + 1..<length out]"
      by (rule map_cong) (auto simp: algebra_simps)
    show ?thesis using True p ih t m
      by (subst Pack_loop.simps) (simp add: upt_conv_Cons)
  qed
qed

lemma packedSize_eq: "packedSize n = (n + 3) div 4"
  by (simp add: packedSize_def drop_bit_eq_div)

lemma bad_Nil_iff: "bad s = [] \<longleftrightarrow> set s \<subseteq> alphabet"
  by (auto simp: bad_def filter_empty_conv dom_NT2BYTES[symmetric])

lemma bad_eq_filter: "bad s = filter (\<lambda>c. c \<notin> alphabet) s"
  unfolding bad_def dom_NT2BYTES[symmetric] by (rule filter_cong) auto

lemma Pack_good:
  assumes "set s \<subseteq> alphabet"
  shows "Pack s = Inr (map (\<lambda>k. packByte s (4 * k)) [0..<(length s + 3) div 4])"
proof -
  have "bad (drop 0 s) = []" using assms by (simp add: bad_Nil_iff)
  from Pack_loop_good[OF this, of "replicate (nat (packedSize (int (length s)))) 0" 0]
  have "Pack s = Inr (map (\<lambda>k. packByte s (4 * k)) [0..<nat (packedSize (int (length s)))])"
    by (simp add: Pack_def)
  moreover have "nat (packedSize (int (length s))) = (length s + 3) div 4"
    unfolding packedSize_eq by (simp add: nat_div_distrib nat_add_distrib)
  ultimately show ?thesis by simp
qed

lemma Pack_bad:
  assumes "\<not> set s \<subseteq> alphabet"
  shows "Pack s = Inl (UnsupportedBase (hd (filter (\<lambda>c. c \<notin> alphabet) s)))"
proof -
  have b: "bad (drop 0 s) \<noteq> []" using assms by (simp add: bad_Nil_iff)
  have n: "nat (packedSize (int (length s))) = (length s + 3) div 4"
    unfolding packedSize_eq by (simp add: nat_div_distrib nat_add_distrib)
  have l: "length s \<le> 0 + 4 * (length (replicate (nat (packedSize (int (length s)))) (0::u8)) - 0)"
    unfolding n by simp
  from Pack_loop_bad[OF b l] show ?thesis by (simp add: Pack_def bad_eq_filter)
qed

lemma cd_pad:
  assumes "length s \<le> m"
  shows "cd (s @ replicate (m - length s) BASE_T) j = cd s j"
  by (auto simp: cd_def nth_append NT2BYTES_T)

lemma packByte_pad:
  "length s \<le> m \<Longrightarrow> packByte (s @ replicate (m - length s) BASE_T) idx = packByte s idx"
  by (simp add: packByte_def cd_pad)

lemma BASE_T_alphabet: "BASE_T \<in> alphabet"
  by (simp add: alphabet_eq BASE_T_def)

text \<open>
  Claim C8. \<^verbatim>\<open>Pack\<close> fails exactly on the strings that contain a character outside
  \<open>{A,C,G,T,N}\<close> in either case, and the error names the first such character of
  the string. On every other string it succeeds with \<open>ceil(len(s)/4)\<close> bytes, and the
  bytes are those of the string padded with \<open>T\<close> to a multiple of four characters.
\<close>

theorem Pack_validation_and_size:
  "(set s \<subseteq> alphabet \<longrightarrow>
      (\<exists>out. Pack s = Inr out \<and> length out = (length s + 3) div 4
         \<and> Pack (s @ replicate (4 * length out - length s) BASE_T) = Inr out))
   \<and> (\<not> set s \<subseteq> alphabet \<longrightarrow>
      Pack s = Inl (UnsupportedBase (hd (filter (\<lambda>c. c \<notin> alphabet) s)))
      \<and> hd (filter (\<lambda>c. c \<notin> alphabet) s) \<in> set s - alphabet)"
proof (intro conjI impI)
  assume a: "set s \<subseteq> alphabet"
  let ?n = "(length s + 3) div 4"
  let ?out = "map (\<lambda>k. packByte s (4 * k)) [0..<?n]"
  let ?s' = "s @ replicate (4 * ?n - length s) BASE_T"
  have le: "length s \<le> 4 * ?n" by arith
  have a': "set ?s' \<subseteq> alphabet" using a BASE_T_alphabet by auto
  have len': "(length ?s' + 3) div 4 = ?n" using le by simp
  have "Pack ?s' = Inr (map (\<lambda>k. packByte ?s' (4 * k)) [0..<?n])"
    using Pack_good[OF a'] unfolding len' .
  also have "\<dots> = Inr ?out" using le by (simp add: packByte_pad)
  finally have "Pack ?s' = Inr ?out" .
  then show "\<exists>out. Pack s = Inr out \<and> length out = (length s + 3) div 4
         \<and> Pack (s @ replicate (4 * length out - length s) BASE_T) = Inr out"
    using Pack_good[OF a] by simp
next
  assume "\<not> set s \<subseteq> alphabet"
  then show "Pack s = Inl (UnsupportedBase (hd (filter (\<lambda>c. c \<notin> alphabet) s)))" by (rule Pack_bad)
next
  assume "\<not> set s \<subseteq> alphabet"
  then have "filter (\<lambda>c. c \<notin> alphabet) s \<noteq> []" by (auto simp: filter_empty_conv)
  then have "hd (filter (\<lambda>c. c \<notin> alphabet) s) \<in> set (filter (\<lambda>c. c \<notin> alphabet) s)" by (rule hd_in_set)
  then show "hd (filter (\<lambda>c. c \<notin> alphabet) s) \<in> set s - alphabet" by simp
qed

lemma Pack_example_good: "Pack (bytes_of ''ACGTn'') = Inr [0x9C, 0]"
  by code_simp

lemma Pack_example_bad: "Pack (bytes_of ''AXGY'') = Inl (UnsupportedBase 88)"
  by code_simp

theorem Pack_validation_and_size_witness:
  "set (bytes_of ''ACGTn'') \<subseteq> alphabet \<and> 
   (\<exists>out. Pack (bytes_of ''ACGTn'') = Inr out \<and> length out = 2 \<and> out = [0x9C, 0]
       \<and> Pack (bytes_of ''ACGTn'' @ replicate 3 BASE_T) = Inr out)
   \<and> \<not> set (bytes_of ''AXGY'') \<subseteq> alphabet \<and> Pack (bytes_of ''AXGY'') = Inl (UnsupportedBase 88)"
proof -
  have h: "set (bytes_of ''ACGTn'') \<subseteq> alphabet" by (simp add: alphabet_eq bytes_of_def)
  have g: "\<not> set (bytes_of ''AXGY'') \<subseteq> alphabet" by (simp add: alphabet_eq bytes_of_def)
  have f: "hd (filter (\<lambda>c. c \<notin> alphabet) (bytes_of ''AXGY'')) = 88" by (simp add: alphabet_eq bytes_of_def)
  have l: "length (bytes_of ''ACGTn'') = 5" by (simp add: bytes_of_def)
  from Pack_validation_and_size[of "bytes_of ''ACGTn''"] h
  obtain out where o: "Pack (bytes_of ''ACGTn'') = Inr out" "length out = (length (bytes_of ''ACGTn'') + 3) div 4"
     "Pack (bytes_of ''ACGTn'' @ replicate (4 * length out - length (bytes_of ''ACGTn'')) BASE_T) = Inr out" by blast
  from o(2) have l2: "length out = 2" by (simp add: l)
  from o(1) have v: "out = [0x9C, 0]" by (simp add: Pack_example_good)
  from Pack_validation_and_size[of "bytes_of ''AXGY''"] g f
  have b: "Pack (bytes_of ''AXGY'') = Inl (UnsupportedBase 88)" by simp
  from o(3) have "Pack (bytes_of ''ACGTn'' @ replicate 3 BASE_T) = Inr out" unfolding l2 l by simp
  with h g b o(1) l2 v show ?thesis by blast
qed

lemma NT2BYTES_cases: "NT2BYTES c = Some v \<Longrightarrow> v = 0 \<or> v = 1 \<or> v = 2 \<or> v = 3"
  by (auto simp: NT2BYTES_def BASE_N_def BASE_T_def BASE_C_def BASE_A_def BASE_G_def split: if_splits)

lemma cd_cases: "cd s j = 0 \<or> cd s j = 1 \<or> cd s j = 2 \<or> cd s j = 3"
proof (cases "j < length s \<and> NT2BYTES (s ! j) \<noteq> None")
  case True
  then obtain v where "NT2BYTES (s ! j) = Some v" by auto
  with True NT2BYTES_cases[OF this] show ?thesis by (simp add: cd_def)
next
  case False
  then show ?thesis by (auto simp: cd_def)
qed

lemma unpack_pack_codes:
  assumes "v0 = 0 \<or> v0 = 1 \<or> v0 = 2 \<or> v0 = (3::u8)"
      and "v1 = 0 \<or> v1 = 1 \<or> v1 = 2 \<or> v1 = (3::u8)"
      and "v2 = 0 \<or> v2 = 1 \<or> v2 = 2 \<or> v2 = (3::u8)"
      and "v3 = 0 \<or> v3 = 1 \<or> v3 = 2 \<or> v3 = (3::u8)"
  shows "unpackByte (push_bit 2 (push_bit 2 (push_bit 2 (push_bit 2 0 + v0) + v1) + v2) + v3)
         = [BYTES2NT ! unat v0, BYTES2NT ! unat v1, BYTES2NT ! unat v2, BYTES2NT ! unat v3]"
  using assms by (elim disjE) (simp_all add: unpackByte_def nt_def)

lemma unpackByte_packByte:
  "unpackByte (packByte s idx) = map (\<lambda>j. BYTES2NT ! unat (cd s j)) [idx, idx + 1, idx + 2, idx + 3]"
  unfolding packByte_def using unpack_pack_codes[OF cd_cases cd_cases cd_cases cd_cases] by simp

lemma concat_quads:
  "concat (map (\<lambda>k. map f [4 * k, 4 * k + 1, 4 * k + 2, 4 * k + 3]) [0..<n]) = map f [0..<4 * n]"
proof (induction n)
  case 0
  then show ?case by simp
next
  case (Suc n)
  have "[0..<4 * n + 4] = [0..<4 * n] @ [4 * n..<4 * n + 4]"
    by (rule upt_add_eq_append) simp
  moreover have "[4 * n..<4 * n + 4] = [4 * n, 4 * n + 1, 4 * n + 2, 4 * n + 3]"
    by (simp add: upt_rec)
  moreover have "4 * Suc n = 4 * n + 4" by simp
  ultimately have "[0..<4 * Suc n] = [0..<4 * n] @ [4 * n, 4 * n + 1, 4 * n + 2, 4 * n + 3]"
    by (simp only:)
  with Suc show ?case by simp
qed

lemma nt_code_collapse:
  assumes "c \<in> alphabet"
  shows "BYTES2NT ! unat (case NT2BYTES c of Some v \<Rightarrow> v | None \<Rightarrow> 0) = collapse c"
  using assms unfolding alphabet_eq
  by (auto simp: NT2BYTES_def BYTES2NT_def collapse_def BASE_N_def BASE_T_def BASE_C_def BASE_A_def BASE_G_def)

text \<open>
  Claim C2. For a string over \<open>{A,C,G,T,N}\<close> in either case, unpacking the packed
  string to the length of the string gives the string with every character in upper
  case and every \<open>N\<close> or \<open>n\<close> replaced by upper-case \<open>T\<close>.
\<close>

theorem Pack_Unpack_roundtrip:
  assumes "set s \<subseteq> alphabet"
  shows "\<exists>p. Pack s = Inr p \<and> (\<forall>spare. Unpack p (int (length s)) spare = Inr (map collapse s))"
proof -
  let ?n = "(length s + 3) div 4"
  let ?p = "map (\<lambda>k. packByte s (4 * k)) [0..<?n]"
  let ?f = "\<lambda>j. BYTES2NT ! unat (cd s j)"
  have le: "length s \<le> 4 * ?n" by arith
  have "concat (map unpackByte ?p) = concat (map (\<lambda>k. map ?f [4 * k, 4 * k + 1, 4 * k + 2, 4 * k + 3]) [0..<?n])"
    by (simp add: unpackByte_packByte comp_def)
  also have "\<dots> = map ?f [0..<4 * ?n]" by (rule concat_quads)
  finally have c: "concat (map unpackByte ?p) = map ?f [0..<4 * ?n]" .
  have "take (length s) (map ?f [0..<4 * ?n]) = map ?f [0..<length s]"
    using le by (simp add: take_map min_def)
  also have "\<dots> = map collapse s"
  proof (rule nth_equalityI)
    show "length (map ?f [0..<length s]) = length (map collapse s)" by simp
  next
    fix i assume "i < length (map ?f [0..<length s])"
    then have i: "i < length s" by simp
    then have "s ! i \<in> alphabet" using assms by auto
    then show "map ?f [0..<length s] ! i = map collapse s ! i"
      using i by (simp add: cd_def nt_code_collapse)
  qed
  finally have t: "take (length s) (map ?f [0..<4 * ?n]) = map collapse s" .
  have "\<And>spare. Unpack ?p (int (length s)) spare = Inr (take (length s) (concat (map unpackByte ?p)))"
    using le by (simp add: Unpack_decoded del: map_map)
  then have "\<forall>spare. Unpack ?p (int (length s)) spare = Inr (map collapse s)"
    unfolding c t by simp
  then show ?thesis using Pack_good[OF assms] by simp
qed

theorem Pack_Unpack_roundtrip_witness:
  "set (bytes_of ''AcgTNnt'') \<subseteq> alphabet \<and>
   (\<exists>p. Pack (bytes_of ''AcgTNnt'') = Inr p
        \<and> Unpack p 7 (smallBufferSize - 8) = Inr (bytes_of ''ACGTTTT''))"
proof -
  have h: "set (bytes_of ''AcgTNnt'') \<subseteq> alphabet" by (simp add: alphabet_eq bytes_of_def)
  have m: "map collapse (bytes_of ''AcgTNnt'') = bytes_of ''ACGTTTT''"
    by (simp add: bytes_of_def collapse_def BASE_N_def BASE_T_def)
  have l: "int (length (bytes_of ''AcgTNnt'')) = 7" by (simp add: bytes_of_def)
  from Pack_Unpack_roundtrip[OF h] obtain p where
    p: "Pack (bytes_of ''AcgTNnt'') = Inr p"
    and u: "\<forall>spare. Unpack p (int (length (bytes_of ''AcgTNnt''))) spare = Inr (map collapse (bytes_of ''AcgTNnt''))"
    by blast
  from u have "Unpack p 7 (smallBufferSize - 8) = Inr (bytes_of ''ACGTTTT'')"
    unfolding l m by blast
  with h p show ?thesis by blast
qed

text \<open>
  Claim C10, where it fails as stated: the two packed bytes \<open>9C 1B\<close> decode to the
  eight characters \<open>ACGTTCAG\<close>, in a buffer of capacity 64. \<^verbatim>\<open>Unpack\<close> with \<open>sz = 9\<close>
  does not index out of bounds: it returns nine bytes, the eight characters and a zero
  byte.
\<close>

theorem Unpack_beyond_decoded_counterexample:
  "4 * int (length [0x9C, 0x1B :: u8]) < 9
   \<and> Unpack [0x9C, 0x1B] 9 (smallBufferSize - 8) = Inr (bytes_of ''ACGTTCAG'' @ [0])"
  by code_simp

text \<open>
  Claim C10, amended. For \<open>0 \<le> sz \<le> 4 * len(raw)\<close>, \<^verbatim>\<open>Unpack(raw, sz)\<close> returns exactly
  \<open>sz\<close> characters, the first \<open>sz\<close> of the \<open>4 * len(raw)\<close> decoded ones, whatever the
  capacity of the buffer. A larger \<open>sz\<close> slices past the decoded characters: up to the
  capacity of the buffer the result is the decoded characters followed by zero bytes,
  \<open>sz\<close> bytes in all; beyond the capacity, and for a negative \<open>sz\<close>, the slice expression
  panics. So \<open>sz \<le> 4 * len(raw)\<close> is what makes the result a string of bases.
\<close>

theorem Unpack_length:
  "(0 \<le> sz \<and> sz \<le> 4 * int (length raw) \<longrightarrow>
      (\<exists>out. Unpack raw sz spare = Inr out \<and> int (length out) = sz
           \<and> out = take (nat sz) (concat (map unpackByte raw))))
   \<and> (4 * int (length raw) < sz \<and> sz \<le> 4 * int (length raw) + int spare \<longrightarrow>
      (\<exists>out. Unpack raw sz spare = Inr out \<and> int (length out) = sz
           \<and> out = concat (map unpackByte raw) @ replicate (nat sz - 4 * length raw) 0))
   \<and> (4 * int (length raw) + int spare < sz \<or> sz < 0 \<longrightarrow>
      Unpack raw sz spare = Inl PanicSliceBounds)"
proof (intro conjI impI)
  assume "0 \<le> sz \<and> sz \<le> 4 * int (length raw)"
  then show "\<exists>out. Unpack raw sz spare = Inr out \<and> int (length out) = sz
           \<and> out = take (nat sz) (concat (map unpackByte raw))"
    by (auto simp: Unpack_decoded length_concat_unpack min_def)
next
  assume a: "4 * int (length raw) < sz \<and> sz \<le> 4 * int (length raw) + int spare"
  let ?d = "concat (map unpackByte raw)"
  have l: "length ?d = 4 * length raw" by (rule length_concat_unpack)
  from a have n: "4 * length raw \<le> nat sz" "nat sz - 4 * length raw \<le> spare" by linarith+
  have "take (nat sz) (?d @ replicate spare 0) = ?d @ take (nat sz - 4 * length raw) (replicate spare 0)"
    using n by (simp add: l)
  also have "take (nat sz - 4 * length raw) (replicate spare (0::u8)) = replicate (nat sz - 4 * length raw) 0"
    using n by (simp add: min_def)
  finally have "Unpack raw sz spare = Inr (?d @ replicate (nat sz - 4 * length raw) 0)"
    using a by (simp add: Unpack_eq)
  moreover have "int (length (?d @ replicate (nat sz - 4 * length raw) (0::u8))) = sz"
    using a n by (simp add: l)
  ultimately show "\<exists>out. Unpack raw sz spare = Inr out \<and> int (length out) = sz
           \<and> out = concat (map unpackByte raw) @ replicate (nat sz - 4 * length raw) 0"
    by blast
next
  assume "4 * int (length raw) + int spare < sz \<or> sz < 0"
  then show "Unpack raw sz spare = Inl PanicSliceBounds"
    by (auto simp: Unpack_eq)
qed

lemma unpack_example: "concat (map unpackByte [0x9C, 0x1B]) = bytes_of ''ACGTTCAG''"
  by code_simp

theorem Unpack_length_witness:
  "(0::int) \<le> 5 \<and> 5 \<le> 4 * int (length [0x9C, 0x1B :: u8])
   \<and> Unpack [0x9C, 0x1B] 5 (smallBufferSize - 8) = Inr (bytes_of ''ACGTT'')
   \<and> 4 * int (length [0x9C, 0x1B :: u8]) < 10
   \<and> 10 \<le> 4 * int (length [0x9C, 0x1B :: u8]) + int (smallBufferSize - 8)
   \<and> Unpack [0x9C, 0x1B] 10 (smallBufferSize - 8) = Inr (bytes_of ''ACGTTCAG'' @ [0, 0])
   \<and> 4 * int (length [0x9C, 0x1B :: u8]) + int (smallBufferSize - 8) < 65
   \<and> Unpack [0x9C, 0x1B] 65 (smallBufferSize - 8) = Inl PanicSliceBounds"
proof -
  let ?raw = "[0x9C, 0x1B] :: u8 list" and ?sp = "smallBufferSize - 8"
  have h1: "(0::int) \<le> 5 \<and> 5 \<le> 4 * int (length ?raw)" by simp
  have h2: "4 * int (length ?raw) < 10 \<and> 10 \<le> 4 * int (length ?raw) + int ?sp"
    by (simp add: smallBufferSize_def)
  have h3: "4 * int (length ?raw) + int ?sp < 65 \<or> (65::int) < 0"
    by (simp add: smallBufferSize_def)
  from Unpack_length[of 5 ?raw ?sp] h1
  have "Unpack ?raw 5 ?sp = Inr (take (nat 5) (concat (map unpackByte ?raw)))" by auto
  then have a: "Unpack ?raw 5 ?sp = Inr (bytes_of ''ACGTT'')"
    unfolding unpack_example by (simp add: bytes_of_def)
  from Unpack_length[of 10 ?raw ?sp] h2
  have "Unpack ?raw 10 ?sp = Inr (concat (map unpackByte ?raw) @ replicate (nat 10 - 4 * length ?raw) 0)"
    by auto
  moreover have "replicate (nat 10 - 4 * length ?raw) (0::u8) = [0, 0]"
    by (simp add: eval_nat_numeral)
  ultimately have b: "Unpack ?raw 10 ?sp = Inr (bytes_of ''ACGTTCAG'' @ [0, 0])"
    unfolding unpack_example by simp
  from Unpack_length[of 65 ?raw ?sp] h3
  have c: "Unpack ?raw 65 ?sp = Inl PanicSliceBounds" by blast
  from h1 h2 h3 a b c show ?thesis by simp
qed

section \<open>Run detection\<close>

lemma separated_snoc:
  "separated bs \<Longrightarrow> \<forall>b\<in>set bs. Length b < bstart x \<Longrightarrow> separated (bs @ [x])"
  unfolding separated_def
  by (auto simp: nth_append less_Suc_eq)

lemma scan_inv_step:
  assumes inv: "scan_inv p pre start isLast blocks"
  shows "scan_inv p (pre @ [c]) (if p c \<and> \<not> isLast then int (length pre) else start) (p c)
           (if \<not> p c \<and> isLast then blocks @ [\<lparr>bstart = start, bcount = int (length pre) - start\<rparr>] else blocks)"
proof -
  from inv have
    bnd: "\<forall>b\<in>set blocks. 0 \<le> bstart b \<and> 0 < bcount b \<and> Length b < (if isLast then start else int (length pre))"
    and sep: "separated blocks"
    and cov: "\<forall>j<length pre. ((\<exists>b\<in>set blocks. covers b (int j)) \<or> (isLast \<and> start \<le> int j)) \<longleftrightarrow> p (pre ! j)"
    and opn: "isLast \<longrightarrow> 0 \<le> start \<and> start < int (length pre)"
    unfolding scan_inv_def by blast+
  show ?thesis
  proof (cases "p c")
    case m: True
    show ?thesis
    proof (cases isLast)
      case True
      with m bnd sep cov opn show ?thesis
        unfolding scan_inv_def by (auto simp: nth_append less_Suc_eq)
    next
      case False
      with m bnd sep cov opn show ?thesis
        unfolding scan_inv_def by (auto simp: nth_append less_Suc_eq covers_def)
    qed
  next
    case m: False
    show ?thesis
    proof (cases isLast)
      case True
      let ?x = "\<lparr>bstart = start, bcount = int (length pre) - start\<rparr>"
      have s: "separated (blocks @ [?x])"
        using sep bnd True by (intro separated_snoc) auto
      have c: "\<And>j. covers ?x j \<longleftrightarrow> start \<le> j \<and> j < int (length pre)"
        by (auto simp: covers_def Length_def)
      from m True bnd cov opn s show ?thesis
        unfolding scan_inv_def by (auto simp: nth_append less_Suc_eq covers_def Length_def)
    next
      case False
      with m bnd sep cov opn show ?thesis
        unfolding scan_inv_def by (auto simp: nth_append less_Suc_eq covers_def)
    qed
  qed
qed

lemma mapBlocks_loop_inv:
  "scan_inv p pre start isLast blocks \<Longrightarrow> i = int (length pre) \<Longrightarrow>
   mapBlocks_loop p cs i start isLast blocks = (start', isLast', blocks') \<Longrightarrow>
   scan_inv p (pre @ cs) start' isLast' blocks'"
proof (induction cs arbitrary: pre start isLast blocks i)
  case Nil
  then show ?case by simp
next
  case (Cons c cs)
  let ?st = "if p c \<and> \<not> isLast then int (length pre) else start"
  let ?bl = "if \<not> p c \<and> isLast then blocks @ [\<lparr>bstart = start, bcount = int (length pre) - start\<rparr>] else blocks"
  have step: "scan_inv p (pre @ [c]) ?st (p c) ?bl" using Cons.prems(1) by (rule scan_inv_step)
  have run: "mapBlocks_loop p cs (i + 1) ?st (p c) ?bl = (start', isLast', blocks')"
    using Cons.prems(2,3) by (simp add: Let_def)
  have "scan_inv p ((pre @ [c]) @ cs) start' isLast' blocks'"
    by (rule Cons.IH[OF step _ run]) (simp add: Cons.prems(2))
  then show ?case by simp
qed

lemma scan_inv_init: "scan_inv p [] 0 False []"
  by (simp add: scan_inv_def separated_def)

lemma mapBlocks_props:
  fixes s p
  defines "bs \<equiv> mapBlocks s p"
  shows "(\<forall>b\<in>set bs. 0 \<le> bstart b \<and> 0 < bcount b \<and> Length b \<le> int (length s))"
    and "separated bs"
    and "(\<forall>j<length s. (\<exists>b\<in>set bs. covers b (int j)) \<longleftrightarrow> p (s ! j))"
proof -
  obtain start isLast blocks where run: "mapBlocks_loop p s 0 0 False [] = (start, isLast, blocks)"
    by (cases "mapBlocks_loop p s 0 0 False []") auto
  have "scan_inv p ([] @ s) start isLast blocks"
    by (rule mapBlocks_loop_inv[OF scan_inv_init _ run]) simp
  then have "scan_inv p s start isLast blocks" by simp
  then have
    bnd: "\<forall>b\<in>set blocks. 0 \<le> bstart b \<and> 0 < bcount b \<and> Length b < (if isLast then start else int (length s))"
    and sep: "separated blocks"
    and cov: "\<forall>j<length s. ((\<exists>b\<in>set blocks. covers b (int j)) \<or> (isLast \<and> start \<le> int j)) \<longleftrightarrow> p (s ! j)"
    and opn: "isLast \<longrightarrow> 0 \<le> start \<and> start < int (length s)"
    unfolding scan_inv_def by blast+
  have bs: "bs = (if isLast then blocks @ [\<lparr>bstart = start, bcount = int (length s) - start\<rparr>] else blocks)"
    unfolding bs_def mapBlocks_def by (simp add: run)
  show "\<forall>b\<in>set bs. 0 \<le> bstart b \<and> 0 < bcount b \<and> Length b \<le> int (length s)"
    using bnd opn unfolding bs by (cases isLast) (force simp: Length_def)+
  show "separated bs"
  proof (cases isLast)
    case True
    have "separated (blocks @ [\<lparr>bstart = start, bcount = int (length s) - start\<rparr>])"
      using sep bnd True by (intro separated_snoc) auto
    with True show ?thesis by (simp add: bs)
  next
    case False
    with sep show ?thesis by (simp add: bs)
  qed
  show "\<forall>j<length s. (\<exists>b\<in>set bs. covers b (int j)) \<longleftrightarrow> p (s ! j)"
  proof (cases isLast)
    case True
    with cov show ?thesis unfolding bs by (auto simp: covers_def Length_def)
  next
    case False
    with cov show ?thesis unfolding bs by auto
  qed
qed

lemma separated_not_covers:
  assumes sep: "separated bs" and pos: "\<forall>b\<in>set bs. 0 < bcount b"
      and b: "b \<in> set bs" and b': "b' \<in> set bs"
  shows "\<not> covers b' (Length b)" and "\<not> covers b' (bstart b - 1)"
proof -
  from b obtain k where k: "k < length bs" "bs ! k = b" by (auto simp: in_set_conv_nth)
  from b' obtain k' where k': "k' < length bs" "bs ! k' = b'" by (auto simp: in_set_conv_nth)
  from pos b b' have c: "0 < bcount b" "0 < bcount b'" by auto
  consider "k < k'" | "k = k'" | "k' < k" by linarith
  then have "\<not> covers b' (Length b) \<and> \<not> covers b' (bstart b - 1)"
  proof cases
    case 1
    with sep k k' have "Length b < bstart b'" unfolding separated_def by blast
    with c show ?thesis by (auto simp: covers_def Length_def)
  next
    case 2
    with k k' have "b' = b" by simp
    then show ?thesis by (auto simp: covers_def Length_def)
  next
    case 3
    with sep k k' have "Length b' < bstart b" unfolding separated_def by blast
    with c show ?thesis by (auto simp: covers_def Length_def)
  qed
  then show "\<not> covers b' (Length b)" and "\<not> covers b' (bstart b - 1)" by simp_all
qed

text \<open>
  Claim C9. The blocks of \<^verbatim>\<open>mapBlocks(s, p)\<close> are the maximal runs of \<open>p\<close> in \<open>s\<close>:
  every block is a non-empty interval inside \<open>s\<close>; the blocks are in ascending order
  and no two of them overlap or touch; a position of \<open>s\<close> is covered by a block if and
  only if \<open>p\<close> holds of its character; and no block can be extended, since \<open>p\<close> fails
  just before its start and just after its end (a block that reaches the end of the
  input is closed there).
\<close>

theorem mapBlocks_runs:
  "(\<forall>b\<in>set (mapBlocks s p). 0 \<le> bstart b \<and> 0 < bcount b \<and> Length b \<le> int (length s))
   \<and> (\<forall>k k'. k < k' \<and> k' < length (mapBlocks s p)
          \<longrightarrow> Length (mapBlocks s p ! k) < bstart (mapBlocks s p ! k'))
   \<and> (\<forall>j<length s. (\<exists>b\<in>set (mapBlocks s p). covers b (int j)) \<longleftrightarrow> p (s ! j))
   \<and> (\<forall>b\<in>set (mapBlocks s p).
          (0 < bstart b \<longrightarrow> \<not> p (s ! nat (bstart b - 1)))
        \<and> (Length b < int (length s) \<longrightarrow> \<not> p (s ! nat (Length b))))"
proof (intro conjI)
  let ?bs = "mapBlocks s p"
  note P = mapBlocks_props[of s p]
  show "\<forall>b\<in>set ?bs. 0 \<le> bstart b \<and> 0 < bcount b \<and> Length b \<le> int (length s)" by (rule P(1))
  show "\<forall>k k'. k < k' \<and> k' < length ?bs \<longrightarrow> Length (?bs ! k) < bstart (?bs ! k')"
    using P(2) unfolding separated_def .
  show "\<forall>j<length s. (\<exists>b\<in>set ?bs. covers b (int j)) \<longleftrightarrow> p (s ! j)" by (rule P(3))
  show "\<forall>b\<in>set ?bs. (0 < bstart b \<longrightarrow> \<not> p (s ! nat (bstart b - 1)))
        \<and> (Length b < int (length s) \<longrightarrow> \<not> p (s ! nat (Length b)))"
  proof (intro ballI conjI impI)
    fix b assume b: "b \<in> set ?bs"
    have pos: "\<forall>b\<in>set ?bs. 0 < bcount b" using P(1) by blast
    from P(1) b have r: "0 \<le> bstart b" "0 < bcount b" "Length b \<le> int (length s)" by auto
    {
      assume "0 < bstart b"
      with r have j: "nat (bstart b - 1) < length s" by (auto simp: Length_def)
      have "\<not> (\<exists>b'\<in>set ?bs. covers b' (int (nat (bstart b - 1))))"
        using separated_not_covers(2)[OF P(2) pos b] \<open>0 < bstart b\<close> by auto
      with P(3) j show "\<not> p (s ! nat (bstart b - 1))" by blast
    }
    {
      assume "Length b < int (length s)"
      with r have j: "nat (Length b) < length s" by (auto simp: Length_def)
      have "0 \<le> Length b" using r by (simp add: Length_def)
      then have "\<not> (\<exists>b'\<in>set ?bs. covers b' (int (nat (Length b))))"
        using separated_not_covers(1)[OF P(2) pos b] by auto
      with P(3) j show "\<not> p (s ! nat (Length b))" by blast
    }
  qed
qed

lemma mapBlocks_example:
  "mapBlocks (bytes_of ''ANNaNn'') isUnknown = [\<lparr>bstart = 1, bcount = 2\<rparr>, \<lparr>bstart = 4, bcount = 2\<rparr>]"
  by code_simp

theorem mapBlocks_runs_witness:
  "1 < length (bytes_of ''ANNaNn'') \<and> isUnknown (bytes_of ''ANNaNn'' ! 1)
   \<and> (\<exists>b\<in>set (mapBlocks (bytes_of ''ANNaNn'') isUnknown). covers b (int 1))
   \<and> 0 < bcount (mapBlocks (bytes_of ''ANNaNn'') isUnknown ! 0)
   \<and> mapBlocks (bytes_of ''ANNaNn'') isUnknown = [\<lparr>bstart = 1, bcount = 2\<rparr>, \<lparr>bstart = 4, bcount = 2\<rparr>]"
proof -
  let ?s = "bytes_of ''ANNaNn''"
  have l: "1 < length ?s" by (simp add: bytes_of_def)
  have p: "isUnknown (?s ! 1)" by (simp add: bytes_of_def isUnknown_def)
  note T = mapBlocks_runs[of ?s isUnknown]
  from T have "\<forall>j<length ?s. (\<exists>b\<in>set (mapBlocks ?s isUnknown). covers b (int j)) \<longleftrightarrow> isUnknown (?s ! j)"
    by blast
  with l p have c: "\<exists>b\<in>set (mapBlocks ?s isUnknown). covers b (int 1)" by blast
  from T have "\<forall>b\<in>set (mapBlocks ?s isUnknown). 0 < bcount b" by blast
  moreover have "mapBlocks ?s isUnknown ! 0 \<in> set (mapBlocks ?s isUnknown)"
    by (simp add: mapBlocks_example)
  ultimately have b: "0 < bcount (mapBlocks ?s isUnknown ! 0)" by blast
  from l p c b mapBlocks_example show ?thesis by blast
qed

section \<open>Reading a range\<close>

lemma go_quot_nonneg: "0 \<le> a \<Longrightarrow> 0 < b \<Longrightarrow> go_quot a b = a div b"
  by (cases "a = 0") (simp_all add: go_quot_def sgn_if)

lemma go_rem_nonneg: "0 \<le> a \<Longrightarrow> 0 < b \<Longrightarrow> go_rem a b = a mod b"
  by (simp add: go_rem_def go_quot_nonneg minus_mult_div_eq_mod)

lemma update4:
  assumes "off + 4 \<le> length buf"
  shows "buf[Suc (Suc (Suc off)) := a, Suc (Suc off) := b, Suc off := c, off := d]
         = take off buf @ [d, c, b, a] @ drop (off + 4) buf"
proof (rule nth_equalityI)
  show "length (buf[Suc (Suc (Suc off)) := a, Suc (Suc off) := b, Suc off := c, off := d])
        = length (take off buf @ [d, c, b, a] @ drop (off + 4) buf)"
    using assms by simp
next
  fix i assume "i < length (buf[Suc (Suc (Suc off)) := a, Suc (Suc off) := b, Suc off := c, off := d])"
  then have i: "i < length buf" by simp
  consider "i < off" | "i = off" | "i = Suc off" | "i = Suc (Suc off)" | "i = Suc (Suc (Suc off))" | "off + 4 \<le> i"
    by linarith
  then show "buf[Suc (Suc (Suc off)) := a, Suc (Suc off) := b, Suc off := c, off := d] ! i
        = (take off buf @ [d, c, b, a] @ drop (off + 4) buf) ! i"
  proof cases
    case 6
    then obtain m where m: "i = off + 4 + m" using le_Suc_ex by blast
    show ?thesis using assms i unfolding m by (simp add: nth_append)
  qed (use assms i in \<open>simp_all add: nth_append\<close>)
qed

lemma decode4_splice:
  assumes "off + 4 \<le> length buf"
  shows "decode4 buf off 4 base = take off buf @ unpackByte base @ drop (off + 4) buf"
  unfolding decode4_4 using update4[OF assms] by (simp add: unpackByte_def)

lemma decodeBuf_eq:
  "4 * (i + m) \<le> length dna \<Longrightarrow> k + m \<le> length buf \<Longrightarrow>
     decodeBuf dna i buf k m
       = (take (4 * i) dna @ concat (map unpackByte (take m (drop k buf))) @ drop (4 * (i + m)) dna, i + m)"
proof (induction m arbitrary: dna i k)
  case 0
  then show ?case by simp
next
  case (Suc m)
  let ?d = "decode4 dna (i * 4) 4 (buf ! k)"
  have d: "?d = take (4 * i) dna @ unpackByte (buf ! k) @ drop (4 * i + 4) dna"
    using Suc.prems(1) decode4_splice[of "i * 4" dna "buf ! k"] by (simp add: mult.commute)
  have l: "length ?d = length dna" using Suc.prems(1) by (simp add: d length_unpackByte)
  have ih: "decodeBuf ?d (i + 1) buf (k + 1) m
       = (take (4 * (i + 1)) ?d @ concat (map unpackByte (take m (drop (k + 1) buf))) @ drop (4 * (i + 1 + m)) ?d, i + 1 + m)"
    using Suc.prems by (intro Suc.IH) (simp_all add: l)
  have t: "take (4 * (i + 1)) ?d = take (4 * i) dna @ unpackByte (buf ! k)"
    using Suc.prems(1) by (simp add: d length_unpackByte)
  have dr: "drop (4 * (i + 1 + m)) ?d = drop (4 * (i + Suc m)) dna"
    using Suc.prems(1) by (simp add: d length_unpackByte ac_simps)
  have tk: "take (Suc m) (drop k buf) = buf ! k # take m (drop (k + 1) buf)"
    using Suc.prems(2) by (simp add: take_Suc_drop)
  show ?case
    by (simp add: ih[simplified] t[simplified] dr[simplified] tk[simplified])
qed


lemma stream_Read_full:
  assumes "s_pos st < length (s_bytes st)" and "s_pos st + length b \<le> length (s_bytes st)"
  shows "stream_Read b st
         = ((length b, None, take (length b) (drop (s_pos st) (s_bytes st))),
            st\<lparr>s_pos := s_pos st + length b\<rparr>)"
  using assms by (auto simp: stream_Read_def Let_def min_def)

lemma stream_Read_short:
  assumes "length (s_bytes st) < s_pos st + length b" and "b \<noteq> []"
  shows "fst (fst (stream_Read b st)) < length b"
  using assms by (auto simp: stream_Read_def Let_def min_def)

lemma chunk_size:
  assumes "4096 dvd i" and "i < sz"
  shows "(if int i + defaultBufSize > int sz then go_rem (int sz) defaultBufSize else defaultBufSize)
         = int (min 4096 (sz - i))"
proof (cases "i + 4096 > sz")
  case True
  from assms(1) obtain q where q: "i = 4096 * q" by (auto simp: dvd_def)
  have "sz mod 4096 = sz - i"
  proof -
    have "sz = (sz - i) + q * 4096" using assms(2) q by simp
    then have "sz mod 4096 = ((sz - i) + q * 4096) mod 4096" by simp
    also have "\<dots> = (sz - i) mod 4096" by (simp only: mod_mult_self1)
    also have "\<dots> = sz - i" using True by simp
    finally show ?thesis .
  qed
  then have "int sz mod 4096 = int (sz - i)" by (metis of_nat_mod of_nat_numeral)
  with True assms(2) show ?thesis
    by (simp add: defaultBufSize_def go_rem_nonneg min_def)
next
  case False
  then show ?thesis by (simp add: defaultBufSize_def min_def)
qed

lemma readChunks_step:
  assumes ldna: "length dna = 4 * sz" and lbuf: "length buf = 4096" and rem: "i < sz"
      and al: "4096 dvd i" and n: "n = min 4096 (sz - i)"
      and av: "s_pos st + n \<le> length (s_bytes st)"
  shows "readChunks (Suc c) (int sz) i dna buf st
         = readChunks c (int sz) (i + n)
             (take (4 * i) dna @ concat (map unpackByte (take n (drop (s_pos st) (s_bytes st))))
                @ drop (4 * (i + n)) dna)
             (take n (drop (s_pos st) (s_bytes st)) @ drop n buf)
             (st\<lparr>s_pos := s_pos st + n\<rparr>)"
proof -
  let ?p = "s_pos st" and ?data = "s_bytes st"
  have n0: "0 < n" "n \<le> 4096" "n \<le> sz - i" using rem by (simp_all add: n)
  have szn: "(if int i + defaultBufSize > int sz then go_rem (int sz) defaultBufSize else defaultBufSize) = int n"
    unfolding n by (rule chunk_size[OF al rem])
  let ?chunk = "take n (drop ?p ?data)"
  have lb: "length (take n buf) = n" using n0 lbuf by simp
  have rd: "stream_Read (take n buf) st = ((n, None, ?chunk), st\<lparr>s_pos := ?p + n\<rparr>)"
    using stream_Read_full[of st "take n buf"] n0 av unfolding lb by simp
  have lc: "length ?chunk = n" using n0 av by simp
  let ?buf1 = "?chunk @ drop n buf"
  have lb1: "length ?buf1 = 4096" using lc n0 lbuf by simp
  have dec: "decodeBuf dna i ?buf1 0 n
       = (take (4 * i) dna @ concat (map unpackByte (take n (drop 0 ?buf1))) @ drop (4 * (i + n)) dna, i + n)"
    using n0 ldna lb1 by (intro decodeBuf_eq) simp_all
  let ?dna1 = "take (4 * i) dna @ concat (map unpackByte ?chunk) @ drop (4 * (i + n)) dna"
  have dec': "decodeBuf dna i ?buf1 0 n = (?dna1, i + n)"
    using dec lc by simp
  show ?thesis
    by (simp only: readChunks.simps szn Let_def nat_int rd dec' prod.case) simp
qed

lemma readChunks_ok:
  "length dna = 4 * sz \<Longrightarrow> length buf = 4096 \<Longrightarrow> i \<le> sz \<Longrightarrow> 4096 dvd i \<or> i = sz \<Longrightarrow>
   c = (sz - i + 4095) div 4096 \<Longrightarrow> s_pos st + (sz - i) \<le> length (s_bytes st) \<Longrightarrow>
   readChunks c (int sz) i dna buf st
     = Inr (take (4 * i) dna @ concat (map unpackByte (take (sz - i) (drop (s_pos st) (s_bytes st)))),
            st\<lparr>s_pos := s_pos st + (sz - i)\<rparr>)"
proof (induction c arbitrary: i dna buf st)
  case 0
  then have "i = sz" by simp
  with 0 show ?case by simp
next
  case (Suc c)
  let ?p = "s_pos st" and ?data = "s_bytes st"
  from Suc.prems(5) have rem: "i < sz" by (cases "i < sz") simp_all
  with Suc.prems(4) have al: "4096 dvd i" by simp
  define n where "n = min 4096 (sz - i)"
  have n0: "0 < n" "n \<le> 4096" "n \<le> sz - i" using rem by (simp_all add: n_def)
  let ?chunk = "take n (drop ?p ?data)"
  have lc: "length ?chunk = n" using n0 Suc.prems(6) by simp
  let ?buf1 = "?chunk @ drop n buf"
  have lb1: "length ?buf1 = 4096" using lc n0 Suc.prems(2) by simp
  let ?dna1 = "take (4 * i) dna @ concat (map unpackByte ?chunk) @ drop (4 * (i + n)) dna"
  have lcc: "length (concat (map unpackByte ?chunk)) = 4 * n"
    by (simp only: length_concat_unpack lc)
  have ld1: "length ?dna1 = 4 * sz"
    using n0 rem Suc.prems(1) by (simp only: length_append lcc length_take length_drop) simp
  have c': "c = (sz - (i + n) + 4095) div 4096"
    using Suc.prems(5) rem unfolding n_def by (auto simp: min_def)
  have al': "4096 dvd (i + n) \<or> i + n = sz"
    using al rem unfolding n_def by (auto simp: min_def)
  have ih: "readChunks c (int sz) (i + n) ?dna1 ?buf1 (st\<lparr>s_pos := ?p + n\<rparr>)
     = Inr (take (4 * (i + n)) ?dna1 @ concat (map unpackByte (take (sz - (i + n)) (drop (s_pos (st\<lparr>s_pos := ?p + n\<rparr>)) (s_bytes (st\<lparr>s_pos := ?p + n\<rparr>))))),
            (st\<lparr>s_pos := ?p + n\<rparr>)\<lparr>s_pos := s_pos (st\<lparr>s_pos := ?p + n\<rparr>) + (sz - (i + n))\<rparr>)"
    using n0 rem Suc.prems(6) by (intro Suc.IH[OF ld1 lb1 _ al' c']) simp_all
  have t1: "take (4 * (i + n)) ?dna1 = take (4 * i) dna @ concat (map unpackByte ?chunk)"
  proof -
    have "length (take (4 * i) dna @ concat (map unpackByte ?chunk)) = 4 * (i + n)"
      using rem Suc.prems(1) by (simp only: length_append lcc length_take) simp
    then show ?thesis by (metis append.assoc append_eq_conv_conj)
  qed
  have sp: "take (sz - i) (drop ?p ?data) = ?chunk @ take (sz - (i + n)) (drop (?p + n) ?data)"
  proof -
    have "sz - i = n + (sz - (i + n))" using n0 by simp
    then have "take (sz - i) (drop ?p ?data) = take (n + (sz - (i + n))) (drop ?p ?data)" by simp
    also have "\<dots> = ?chunk @ take (sz - (i + n)) (drop n (drop ?p ?data))" by (rule take_add)
    finally show ?thesis by (simp add: add.commute)
  qed
  have pos: "?p + n + (sz - (i + n)) = ?p + (sz - i)" using n0 by simp
  have av: "?p + n \<le> length ?data" using n0 Suc.prems(6) by simp
  have "readChunks (Suc c) (int sz) i dna buf st
        = readChunks c (int sz) (i + n) ?dna1 ?buf1 (st\<lparr>s_pos := ?p + n\<rparr>)"
    by (rule readChunks_step[OF Suc.prems(1,2) rem al n_def av])
  also have "\<dots> = Inr (take (4 * i) dna @ concat (map unpackByte (take (sz - i) (drop ?p ?data))),
            st\<lparr>s_pos := ?p + (sz - i)\<rparr>)"
    unfolding ih t1 sp by (simp add: pos)
  finally show ?case .
qed

lemma readChunks_fail:
  "length dna = 4 * sz \<Longrightarrow> length buf = 4096 \<Longrightarrow> i < sz \<Longrightarrow> 4096 dvd i \<Longrightarrow>
   c = (sz - i + 4095) div 4096 \<Longrightarrow> length (s_bytes st) < s_pos st + (sz - i) \<Longrightarrow>
   \<exists>k. readChunks c (int sz) i dna buf st = Inl (FailedReadDnaBytes k)"
proof (induction c arbitrary: i dna buf st)
  case 0
  then show ?case by simp
next
  case (Suc c)
  let ?p = "s_pos st" and ?data = "s_bytes st"
  note rem = Suc.prems(3) and al = Suc.prems(4)
  define n where "n = min 4096 (sz - i)"
  have n0: "0 < n" "n \<le> 4096" "n \<le> sz - i" using rem by (simp_all add: n_def)
  have szn: "(if int i + defaultBufSize > int sz then go_rem (int sz) defaultBufSize else defaultBufSize) = int n"
    unfolding n_def by (rule chunk_size[OF al rem])
  show ?case
  proof (cases "length ?data < ?p + n")
    case True
    have lb: "length (take n buf) = n" using n0 Suc.prems(2) by simp
    have "fst (fst (stream_Read (take n buf) st)) < n"
      using stream_Read_short[of st "take n buf"] True n0 lb by (cases "take n buf = []") simp_all
    then obtain m err b st1 where rd: "stream_Read (take n buf) st = ((m, err, b), st1)" and m: "m < n"
      by (cases "stream_Read (take n buf) st") auto
    have "readChunks (Suc c) (int sz) i dna buf st = Inl (FailedReadDnaBytes (int n))"
      using m by (simp only: readChunks.simps szn Let_def nat_int rd prod.case) simp
    then show ?thesis by blast
  next
    case False
    then have av: "?p + n \<le> length ?data" by simp
    with Suc.prems(6) have big: "n < sz - i" by linarith
    then have n4: "n = 4096" unfolding n_def by (simp add: min_def split: if_splits)
    let ?chunk = "take n (drop ?p ?data)"
    have lc: "length ?chunk = n" using n0 av by simp
    let ?buf1 = "?chunk @ drop n buf"
    have lb1: "length ?buf1 = 4096" using lc n0 Suc.prems(2) by simp
    let ?dna1 = "take (4 * i) dna @ concat (map unpackByte ?chunk) @ drop (4 * (i + n)) dna"
    have lcc: "length (concat (map unpackByte ?chunk)) = 4 * n"
      by (simp only: length_concat_unpack lc)
    have ld1: "length ?dna1 = 4 * sz"
      using n0 rem Suc.prems(1) by (simp only: length_append lcc length_take length_drop) simp
    have c': "c = (sz - (i + n) + 4095) div 4096"
      using Suc.prems(5) big unfolding n4 by simp
    have al': "4096 dvd (i + n)" using al n4 by simp
    have step: "readChunks (Suc c) (int sz) i dna buf st
        = readChunks c (int sz) (i + n) ?dna1 ?buf1 (st\<lparr>s_pos := ?p + n\<rparr>)"
      by (rule readChunks_step[OF Suc.prems(1,2) rem al n_def av])
    have "\<exists>k. readChunks c (int sz) (i + n) ?dna1 ?buf1 (st\<lparr>s_pos := ?p + n\<rparr>) = Inl (FailedReadDnaBytes k)"
      using big Suc.prems(6) by (intro Suc.IH[OF ld1 lb1 _ al' c']) simp_all
    with step show ?thesis by simp
  qed
qed

lemma packedSize_ceil4: "packedSize n = ceil4 n"
  unfolding packedSize_eq ceil4_def by presburger

lemma ceil_div_nat:
  fixes n k :: nat
  assumes "0 < k"
  shows "(n + (k - 1)) div k = n div k + (if n mod k = 0 then 0 else 1)"
proof -
  let ?q = "n div k" and ?r = "n mod k"
  have r: "?r < k" using assms by simp
  have "n + (k - 1) = k * ?q + (?r + (k - 1))" by simp
  then have "(n + (k - 1)) div k = (k * ?q + (?r + (k - 1))) div k" by simp
  also have "\<dots> = ?q + (?r + (k - 1)) div k" using assms by (simp only: div_mult_self4) 
  also have "(?r + (k - 1)) div k = (if ?r = 0 then 0 else 1)"
  proof (cases "?r = 0")
    case True
    then show ?thesis using assms by simp
  next
    case False
    then have "k \<le> ?r + (k - 1)" "?r + (k - 1) < k + k" using r by simp_all
    then have "(?r + (k - 1)) div k = 1" by (simp add: div_nat_eqI)
    with False show ?thesis by simp
  qed
  finally show ?thesis .
qed

lemma readWindow_eq:
  assumes s0: "0 \<le> s" and se: "s < e"
  defines "shift \<equiv> seekDistance s" and "sz \<equiv> spanLength s e"
  shows "s_pos st0 + shift + sz \<le> length (s_bytes st0) \<Longrightarrow>
           readWindow st0 s e
             = Inr (take (nat (e - s)) (drop (nat (s mod 4))
                      (concat (map unpackByte (take sz (drop (s_pos st0 + shift) (s_bytes st0)))))),
                    st0\<lparr>s_pos := s_pos st0 + shift + sz\<rparr>)"
    and "length (s_bytes st0) < s_pos st0 + shift + sz \<Longrightarrow>
           \<exists>k. readWindow st0 s e = Inl (FailedReadDnaBytes k)"
proof -
  let ?st = "st0\<lparr>s_pos := s_pos st0 + shift\<rparr>"
  have rem4: "go_rem s 4 = s mod 4" using s0 by (simp add: go_rem_nonneg)
  have szpos: "0 < sz" using se unfolding sz_def spanLength_def ceil4_def by (auto split: if_splits) 
  have size_eq: "(if s > 0 \<and> go_rem s 4 \<noteq> 0 then packedSize (e - s) + 1 else packedSize (e - s)) = int sz"
    using s0 se unfolding sz_def spanLength_def rem4 packedSize_ceil4 ceil4_def by auto
  have seek: "(if s > 0 then stream_Seek (if go_rem s 4 \<noteq> 0 then packedSize s - 1 else packedSize s) 1 st0 else st0) = ?st"
  proof (cases "s > 0")
    case True
    have "(if go_rem s 4 \<noteq> 0 then packedSize s - 1 else packedSize s) = int shift"
      using True unfolding shift_def seekDistance_def rem4 packedSize_ceil4 ceil4_def by auto
    with True show ?thesis by (simp add: stream_Seek_def Let_def nat_add_distrib)
  next
    case False
    with s0 have "s = 0" by simp
    then show ?thesis by (simp add: shift_def seekDistance_def ceil4_def)
  qed
  have pre: "readWindow st0 s e =
      (case readChunks (nat (if go_rem (int sz) defaultBufSize > 0 then go_quot (int sz) defaultBufSize + 1 else go_quot (int sz) defaultBufSize))
              (int sz) 0 (replicate (nat (int sz * 4)) 0) (replicate (nat defaultBufSize) 0) ?st of
         Inl x \<Rightarrow> Inl x
       | Inr (dna1, st1) \<Rightarrow>
           if int (length dna1) < s mod 4 + (e - s) then Inl PanicSliceBounds
           else Inr (take (nat (e - s)) (drop (nat (s mod 4)) dna1), st1))"
  proof (cases "s > 0")
    case pos: True
    show ?thesis
    proof (cases "go_rem s 4 \<noteq> 0")
      case True
      have a: "packedSize (e - s) + 1 = int sz" using size_eq pos True by simp
      have b: "stream_Seek (packedSize s - 1) 1 st0 = ?st" using seek pos True by simp
      show ?thesis
        unfolding readWindow_def Let_def using pos True
        by (simp only: if_True if_False simp_thms prod.case a b rem4)
    next
      case False
      have a: "packedSize (e - s) = int sz" using size_eq pos False by simp
      have b: "stream_Seek (packedSize s) 1 st0 = ?st" using seek pos False by simp
      show ?thesis
        unfolding readWindow_def Let_def using pos False
        by (simp only: if_True if_False simp_thms prod.case a b rem4)
    qed
  next
    case False
    have a: "packedSize (e - s) = int sz" using size_eq False by simp
    have b: "st0 = ?st" using seek False by simp
    show ?thesis
      unfolding readWindow_def Let_def using False
      by (simp only: if_True if_False simp_thms prod.case a rem4 b[symmetric])
  qed
  have chunks: "nat (if go_rem (int sz) defaultBufSize > 0 then go_quot (int sz) defaultBufSize + 1 else go_quot (int sz) defaultBufSize)
        = (sz - 0 + 4095) div 4096"
  proof -
    have "(sz + 4095) div 4096 = sz div 4096 + (if sz mod 4096 = 0 then 0 else 1)"
      using ceil_div_nat[of 4096 sz] by simp
    moreover have "int sz mod 4096 = int (sz mod 4096)" "int sz div 4096 = int (sz div 4096)"
      by (simp_all add: zmod_int zdiv_int)
    ultimately show ?thesis
      by (simp add: defaultBufSize_def go_rem_nonneg go_quot_nonneg nat_add_distrib)
  qed
  have ld: "length (replicate (nat (int sz * 4)) (0::u8)) = 4 * sz" by (simp add: nat_mult_distrib)
  have lb: "length (replicate (nat defaultBufSize) (0::u8)) = 4096" by (simp add: defaultBufSize_def)
  {
    assume av: "s_pos st0 + shift + sz \<le> length (s_bytes st0)"
    have "readChunks ((sz - 0 + 4095) div 4096) (int sz) 0 (replicate (nat (int sz * 4)) 0) (replicate (nat defaultBufSize) 0) ?st
       = Inr (take (4 * 0) (replicate (nat (int sz * 4)) 0) @ concat (map unpackByte (take (sz - 0) (drop (s_pos ?st) (s_bytes ?st)))),
            ?st\<lparr>s_pos := s_pos ?st + (sz - 0)\<rparr>)"
      using av by (intro readChunks_ok[OF ld lb]) simp_all
    then have rc: "readChunks ((sz - 0 + 4095) div 4096) (int sz) 0 (replicate (nat (int sz * 4)) 0) (replicate (nat defaultBufSize) 0) ?st
       = Inr (concat (map unpackByte (take sz (drop (s_pos st0 + shift) (s_bytes st0)))),
            st0\<lparr>s_pos := s_pos st0 + shift + sz\<rparr>)"
      by simp
    have lt: "length (take sz (drop (s_pos st0 + shift) (s_bytes st0))) = sz" using av by simp
    have fit: "\<not> int (4 * sz) < s mod 4 + (e - s)"
      using s0 se unfolding sz_def spanLength_def ceil4_def by (auto split: if_splits)
    show "readWindow st0 s e
             = Inr (take (nat (e - s)) (drop (nat (s mod 4))
                      (concat (map unpackByte (take sz (drop (s_pos st0 + shift) (s_bytes st0)))))),
                    st0\<lparr>s_pos := s_pos st0 + shift + sz\<rparr>)"
      unfolding pre chunks rc using fit by (simp add: length_concat_unpack lt del: length_take)
  }
  {
    assume short: "length (s_bytes st0) < s_pos st0 + shift + sz"
    have "\<exists>k. readChunks ((sz - 0 + 4095) div 4096) (int sz) 0 (replicate (nat (int sz * 4)) 0) (replicate (nat defaultBufSize) 0) ?st
       = Inl (FailedReadDnaBytes k)"
      using short szpos by (intro readChunks_fail[OF ld lb]) simp_all
    then show "\<exists>k. readWindow st0 s e = Inl (FailedReadDnaBytes k)"
      unfolding pre chunks by auto
  }
qed

lemma clamp_eq:
  "(if (if end > bases then bases else end) = 0 \<or> (if end > bases then bases else end) < 0
    then bases else (if end > bases then bases else end)) = clampEnd bases end"
  by (auto simp: clampEnd_def)

lemma clampStart_eq: "(if start < 0 then 0 else start) = clampStart start"
  by (simp add: clampStart_def max_def)

lemma ReadRange_clamp:
  "ReadRange r name start end =
     (case parseRecord r name True of
        Inl x \<Rightarrow> Inl x
      | Inr (rc, r1) \<Rightarrow> afterClamp rc r1 (clampStart start) (clampEnd (uint (dnaSize rc)) end))"
  unfolding ReadRange_def afterClamp_def Let_def clamp_eq clampStart_eq ..


section \<open>The overlays\<close>

lemma overlayN_loop_eq:
  "0 \<le> idx \<Longrightarrow>
   overlayN_loop k idx seq
     = Inr (map (\<lambda>i. if idx \<le> int i \<and> int i < idx + int k then BASE_N else seq ! i) [0..<length seq])"
proof (induction k arbitrary: idx seq)
  case 0
  then show ?case by (auto intro!: nth_equalityI)
next
  case (Suc k)
  show ?case
  proof (cases "int (length seq) \<le> idx")
    case True
    have "map (\<lambda>i. if idx \<le> int i \<and> int i < idx + int (Suc k) then BASE_N else seq ! i) [0..<length seq]
          = map (\<lambda>i. seq ! i) [0..<length seq]"
      using True by (intro map_cong) auto
    with True show ?thesis by (simp add: map_nth)
  next
    case False
    let ?seq1 = "seq[nat idx := BASE_N]"
    have "overlayN_loop k (idx + 1) ?seq1
          = Inr (map (\<lambda>i. if idx + 1 \<le> int i \<and> int i < idx + 1 + int k then BASE_N else ?seq1 ! i) [0..<length ?seq1])"
      using Suc.prems by (intro Suc.IH) simp
    also have "map (\<lambda>i. if idx + 1 \<le> int i \<and> int i < idx + 1 + int k then BASE_N else ?seq1 ! i) [0..<length ?seq1]
          = map (\<lambda>i. if idx \<le> int i \<and> int i < idx + int (Suc k) then BASE_N else seq ! i) [0..<length seq]"
    proof (rule map_cong)
      show "[0..<length ?seq1] = [0..<length seq]" by simp
    next
      fix i assume "i \<in> set [0..<length seq]"
      then have "i < length seq" by simp
      then show "(if idx + 1 \<le> int i \<and> int i < idx + 1 + int k then BASE_N else ?seq1 ! i)
          = (if idx \<le> int i \<and> int i < idx + int (Suc k) then BASE_N else seq ! i)"
        using Suc.prems False by (cases "i = nat idx") (auto simp: nth_list_update)
    qed
    finally show ?thesis using Suc.prems False by simp
  qed
qed

lemma overlay_window:
  fixes b :: Block
  assumes "\<not> (Length b < start \<or> bstart b > end)" and "int i < end - start"
  shows "((if bstart b - start < 0 then 0 else bstart b - start) \<le> int i
          \<and> int i < (if bstart b - start < 0 then 0 else bstart b - start)
                + int (nat (if bstart b - start < 0 then bcount b + (bstart b - start) else bcount b)))
         \<longleftrightarrow> covers b (start + int i)"
  using assms by (auto simp: covers_def Length_def)

lemma overlay_skip:
  fixes b :: Block
  assumes "Length b < start \<or> bstart b > end" and "int i < end - start"
  shows "\<not> covers b (start + int i)"
  using assms by (auto simp: covers_def)

lemma overlayN_eq:
  "int (length seq) \<le> end - start \<Longrightarrow>
   overlayN bs start end seq
     = Inr (map (\<lambda>i. if \<exists>b\<in>set bs. covers b (start + int i) then BASE_N else seq ! i) [0..<length seq])"
proof (induction bs arbitrary: seq)
  case Nil
  then show ?case by (simp add: map_nth)
next
  case (Cons b bs)
  show ?case
  proof (cases "Length b < start \<or> bstart b > end")
    case True
    have "map (\<lambda>i. if \<exists>b\<in>set bs. covers b (start + int i) then BASE_N else seq ! i) [0..<length seq]
        = map (\<lambda>i. if \<exists>b'\<in>set (b # bs). covers b' (start + int i) then BASE_N else seq ! i) [0..<length seq]"
    proof (rule map_cong)
      fix i assume "i \<in> set [0..<length seq]"
      then have "int i < end - start" using Cons.prems by simp
      from overlay_skip[OF True this]
      show "(if \<exists>b\<in>set bs. covers b (start + int i) then BASE_N else seq ! i)
          = (if \<exists>b'\<in>set (b # bs). covers b' (start + int i) then BASE_N else seq ! i)" by simp
    qed simp
    with True Cons.IH[OF Cons.prems] show ?thesis by simp
  next
    case False
    define idx where "idx = (if bstart b - start < 0 then 0 else bstart b - start)"
    define cnt where "cnt = (if bstart b - start < 0 then bcount b + (bstart b - start) else bcount b)"
    have w: "\<And>i. int i < end - start \<Longrightarrow> (idx \<le> int i \<and> int i < idx + int (nat cnt)) \<longleftrightarrow> covers b (start + int i)"
      using overlay_window[OF False] unfolding idx_def cnt_def by blast
    have idx0: "0 \<le> idx" by (simp add: idx_def)
    let ?seq1 = "map (\<lambda>i. if idx \<le> int i \<and> int i < idx + int (nat cnt) then BASE_N else seq ! i) [0..<length seq]"
    have l1: "length ?seq1 = length seq" by simp
    have loop: "overlayN_loop (nat cnt) idx seq = Inr ?seq1" by (rule overlayN_loop_eq[OF idx0])
    have step: "overlayN (b # bs) start end seq = overlayN bs start end ?seq1"
      using False loop unfolding idx_def cnt_def by (simp add: Let_def split: if_splits)
    have "overlayN bs start end ?seq1
        = Inr (map (\<lambda>i. if \<exists>b\<in>set bs. covers b (start + int i) then BASE_N else ?seq1 ! i) [0..<length ?seq1])"
      using Cons.prems by (intro Cons.IH) simp
    also have "map (\<lambda>i. if \<exists>b\<in>set bs. covers b (start + int i) then BASE_N else ?seq1 ! i) [0..<length ?seq1]
        = map (\<lambda>i. if \<exists>b'\<in>set (b # bs). covers b' (start + int i) then BASE_N else seq ! i) [0..<length seq]"
      unfolding l1
    proof (rule map_cong)
      fix i assume "i \<in> set [0..<length seq]"
      then have i: "i < length seq" "int i < end - start" using Cons.prems by simp_all
      show "(if \<exists>b\<in>set bs. covers b (start + int i) then BASE_N else ?seq1 ! i)
          = (if \<exists>b'\<in>set (b # bs). covers b' (start + int i) then BASE_N else seq ! i)"
        using w[OF i(2)] i(1) by auto
    qed simp
    finally show ?thesis unfolding step .
  qed
qed


lemma overlayM_loop_eq:
  "0 \<le> idx \<Longrightarrow> (0 < k \<longrightarrow> idx < int (length seq)) \<Longrightarrow>
   overlayM_loop k idx seq
     = Inr (map (\<lambda>i. if idx \<le> int i \<and> int i < idx + int k then seq ! i + 32 else seq ! i) [0..<length seq])"
proof (induction k arbitrary: idx seq)
  case 0
  then show ?case by (auto intro!: nth_equalityI)
next
  case (Suc k)
  let ?seq1 = "seq[nat idx := seq ! nat idx + 32]"
  from Suc.prems have in_range: "idx < int (length seq)" by simp
  show ?case
  proof (cases "int (length seq) \<le> idx + 1")
    case True
    have "?seq1 = map (\<lambda>i. if idx \<le> int i \<and> int i < idx + int (Suc k) then seq ! i + 32 else seq ! i) [0..<length seq]"
    proof (rule nth_equalityI)
      fix i assume "i < length ?seq1"
      then have i: "i < length seq" by simp
      show "?seq1 ! i = map (\<lambda>i. if idx \<le> int i \<and> int i < idx + int (Suc k) then seq ! i + 32 else seq ! i) [0..<length seq] ! i"
        using Suc.prems(1) True i by (cases "i = nat idx") (auto simp: nth_list_update)
    qed simp
    with True in_range Suc.prems(1) show ?thesis by (simp add: Let_def)
  next
    case False
    have "overlayM_loop k (idx + 1) ?seq1
          = Inr (map (\<lambda>i. if idx + 1 \<le> int i \<and> int i < idx + 1 + int k then ?seq1 ! i + 32 else ?seq1 ! i) [0..<length ?seq1])"
      using Suc.prems(1) False by (intro Suc.IH) simp_all
    also have "map (\<lambda>i. if idx + 1 \<le> int i \<and> int i < idx + 1 + int k then ?seq1 ! i + 32 else ?seq1 ! i) [0..<length ?seq1]
          = map (\<lambda>i. if idx \<le> int i \<and> int i < idx + int (Suc k) then seq ! i + 32 else seq ! i) [0..<length seq]"
    proof (rule map_cong)
      show "[0..<length ?seq1] = [0..<length seq]" by simp
    next
      fix i assume "i \<in> set [0..<length seq]"
      then have "i < length seq" by simp
      then show "(if idx + 1 \<le> int i \<and> int i < idx + 1 + int k then ?seq1 ! i + 32 else ?seq1 ! i)
          = (if idx \<le> int i \<and> int i < idx + int (Suc k) then seq ! i + 32 else seq ! i)"
        using Suc.prems(1) by (cases "i = nat idx") (auto simp: nth_list_update)
    qed
    finally show ?thesis using False in_range Suc.prems(1) by (simp add: Let_def)
  qed
qed

lemma overlayM_eq:
  "int (length seq) = end - start \<Longrightarrow> start < end \<Longrightarrow>
   \<forall>b\<in>set bs. bstart b = end \<longrightarrow> bcount b \<le> 0 \<Longrightarrow>
   overlayM bs start end seq
     = Inr (map (\<lambda>i. seq ! i + 32 * of_nat (length (filter (\<lambda>b. covers b (start + int i)) bs)))
              [0..<length seq])"
proof (induction bs arbitrary: seq)
  case Nil
  then show ?case by (auto intro!: nth_equalityI)
next
  case (Cons b bs)
  have rest: "\<forall>b\<in>set bs. bstart b = end \<longrightarrow> bcount b \<le> 0" using Cons.prems(3) by simp
  show ?case
  proof (cases "Length b < start \<or> bstart b > end")
    case True
    have "map (\<lambda>i. seq ! i + 32 * of_nat (length (filter (\<lambda>b. covers b (start + int i)) bs))) [0..<length seq]
        = map (\<lambda>i. seq ! i + 32 * of_nat (length (filter (\<lambda>b. covers b (start + int i)) (b # bs)))) [0..<length seq]"
    proof (rule map_cong)
      fix i assume "i \<in> set [0..<length seq]"
      then have "int i < end - start" using Cons.prems(1) by simp
      from overlay_skip[OF True this]
      show "seq ! i + 32 * of_nat (length (filter (\<lambda>b. covers b (start + int i)) bs))
          = seq ! i + 32 * of_nat (length (filter (\<lambda>b. covers b (start + int i)) (b # bs)))" by simp
    qed simp
    with True Cons.IH[OF Cons.prems(1,2) rest] show ?thesis by simp
  next
    case False
    define idx where "idx = (if bstart b - start < 0 then 0 else bstart b - start)"
    define cnt where "cnt = (if bstart b - start < 0 then bcount b + (bstart b - start) else bcount b)"
    have w: "\<And>i. int i < end - start \<Longrightarrow> (idx \<le> int i \<and> int i < idx + int (nat cnt)) \<longleftrightarrow> covers b (start + int i)"
      using overlay_window[OF False] unfolding idx_def cnt_def by blast
    have idx0: "0 \<le> idx" by (simp add: idx_def)
    have safe: "0 < nat cnt \<longrightarrow> idx < int (length seq)"
      using False Cons.prems unfolding idx_def cnt_def by (auto split: if_splits)
    let ?seq1 = "map (\<lambda>i. if idx \<le> int i \<and> int i < idx + int (nat cnt) then seq ! i + 32 else seq ! i) [0..<length seq]"
    have l1: "length ?seq1 = length seq" by simp
    have loop: "overlayM_loop (nat cnt) idx seq = Inr ?seq1" by (rule overlayM_loop_eq[OF idx0 safe])
    have step: "overlayM (b # bs) start end seq = overlayM bs start end ?seq1"
      using False loop unfolding idx_def cnt_def by (simp add: Let_def split: if_splits)
    have "overlayM bs start end ?seq1
        = Inr (map (\<lambda>i. ?seq1 ! i + 32 * of_nat (length (filter (\<lambda>b. covers b (start + int i)) bs))) [0..<length ?seq1])"
      using Cons.prems(1,2) rest by (intro Cons.IH) simp_all
    also have "map (\<lambda>i. ?seq1 ! i + 32 * of_nat (length (filter (\<lambda>b. covers b (start + int i)) bs))) [0..<length ?seq1]
        = map (\<lambda>i. seq ! i + 32 * of_nat (length (filter (\<lambda>b. covers b (start + int i)) (b # bs)))) [0..<length seq]"
      unfolding l1
    proof (rule map_cong)
      fix i assume "i \<in> set [0..<length seq]"
      then have i: "i < length seq" "int i < end - start" using Cons.prems(1) by simp_all
      show "?seq1 ! i + 32 * of_nat (length (filter (\<lambda>b. covers b (start + int i)) bs))
          = seq ! i + 32 * of_nat (length (filter (\<lambda>b. covers b (start + int i)) (b # bs)))"
        using w[OF i(2)] i(1) by auto
    qed simp
    finally show ?thesis unfolding step .
  qed
qed


section \<open>Properties of ReadRange\<close>

lemma nt_in: "nt x \<in> set BYTES2NT"
proof -
  have "unat (x AND 3) \<le> unat (3 :: u8)"
    by (rule word_and_le1 [THEN word_le_nat_alt [THEN iffD1]])
  then have "unat (x AND 3) < length BYTES2NT" by (simp add: BYTES2NT_def)
  then show ?thesis unfolding nt_def by (rule nth_mem)
qed

lemma set_unpack: "set (concat (map unpackByte raw)) \<subseteq> set BYTES2NT"
  by (auto simp: unpackByte_def nt_in)

lemma BASE_N_not_decoded: "BASE_N \<notin> set BYTES2NT"
  by (simp add: BYTES2NT_def BASE_N_def BASE_T_def BASE_C_def BASE_A_def BASE_G_def)

lemma readWindow_Inr:
  assumes "0 \<le> s" and "s < e" and "readWindow st s e = Inr (seq, st1)"
  shows "length seq = nat (e - s)" and "set seq \<subseteq> set BYTES2NT"
proof -
  let ?p = "s_pos st + seekDistance s" and ?n = "spanLength s e"
  have av: "?p + ?n \<le> length (s_bytes st)"
  proof (rule ccontr)
    assume "\<not> ?p + ?n \<le> length (s_bytes st)"
    then have "length (s_bytes st) < ?p + ?n" by simp
    from readWindow_eq(2)[OF assms(1,2) this] assms(3) show False by auto
  qed
  let ?raw = "take ?n (drop ?p (s_bytes st))"
  have seq: "seq = take (nat (e - s)) (drop (nat (s mod 4)) (concat (map unpackByte ?raw)))"
    using readWindow_eq(1)[OF assms(1,2) av] assms(3) by simp
  have lr: "length ?raw = ?n" using av by simp
  have fit: "nat (s mod 4) + nat (e - s) \<le> 4 * ?n"
    using assms(1,2) unfolding spanLength_def ceil4_def by (auto split: if_splits)
  have lc: "length (concat (map unpackByte ?raw)) = 4 * ?n"
    by (simp only: length_concat_unpack lr)
  show "length seq = nat (e - s)"
    unfolding seq length_take length_drop lc using fit by simp
  have "set seq \<subseteq> set (concat (map unpackByte ?raw))"
    unfolding seq by (meson set_take_subset set_drop_subset subset_trans)
  then show "set seq \<subseteq> set BYTES2NT" using set_unpack by blast
qed

lemma overlayM_Nil: "overlayM [] s e seq = Inr seq"
  by simp


lemma overlayM_loop_length:
  "overlayM_loop k idx seq = Inr out \<Longrightarrow> length out = length seq"
proof (induction k arbitrary: idx seq)
  case 0
  then show ?case by simp
next
  case (Suc k)
  then show ?case
    by (auto simp: Let_def split: if_splits dest!: Suc.IH)
qed

lemma overlayM_loop_error:
  "overlayM_loop k idx seq = Inl x \<Longrightarrow> x = PanicIndexOutOfRange"
proof (induction k arbitrary: idx seq)
  case 0
  then show ?case by simp
next
  case (Suc k)
  then show ?case
    by (auto simp: Let_def split: if_splits dest!: Suc.IH)
qed


lemma overlayM_panics:
  "b \<in> set bs \<Longrightarrow> bstart b = e \<Longrightarrow> 0 < bcount b \<Longrightarrow> int (length seq) = e - s \<Longrightarrow> s < e \<Longrightarrow>
   overlayM bs s e seq = Inl PanicIndexOutOfRange"
proof (induction bs arbitrary: seq)
  case Nil
  then show ?case by simp
next
  case (Cons a bs)
  show ?case
  proof (cases "Length a < s \<or> bstart a > e")
    case True
    with Cons.prems have "a \<noteq> b" by (auto simp: Length_def)
    with Cons.prems have "b \<in> set bs" by simp
    from Cons.IH[OF this Cons.prems(2,3,4,5)] True show ?thesis by simp
  next
    case False
    define idx where "idx = (if bstart a - s < 0 then 0 else bstart a - s)"
    define cnt where "cnt = (if bstart a - s < 0 then bcount a + (bstart a - s) else bcount a)"
    have step: "overlayM (a # bs) s e seq
       = (case overlayM_loop (nat cnt) idx seq of Inl x \<Rightarrow> Inl x | Inr seq1 \<Rightarrow> overlayM bs s e seq1)"
      using False unfolding idx_def cnt_def by (simp add: Let_def split: if_splits)
    show ?thesis
    proof (cases "a = b")
      case True
      with Cons.prems have i: "idx = int (length seq)" and c: "0 < cnt"
        unfolding idx_def cnt_def by auto
      from c obtain k where k: "nat cnt = Suc k" by (cases "nat cnt") auto
      show ?thesis unfolding step k i by simp
    next
      case False
      with Cons.prems have bin: "b \<in> set bs" by simp
      show ?thesis
      proof (cases "overlayM_loop (nat cnt) idx seq")
        case (Inl x)
        with overlayM_loop_error[OF Inl] show ?thesis unfolding step by simp
      next
        case (Inr seq1)
        from overlayM_loop_length[OF Inr] Cons.prems(4) have "int (length seq1) = e - s" by simp
        from Cons.IH[OF bin Cons.prems(2,3) this Cons.prems(5)] Inr show ?thesis unfolding step by simp
      qed
    qed
  qed
qed

lemma example_parse:
  "(case parseRecord exampleReader (bytes_of ''chr1'') True of
      Inl x \<Rightarrow> Inl x
    | Inr (rc, r1) \<Rightarrow> Inr (rc, reader r1))
   = Inr (\<lparr>dnaSize = 10, nBlocks = [\<lparr>bstart = 2, bcount = 3\<rparr>], mBlocks = [],
            rec_reserved = 0, sequence = []\<rparr>,
          \<lparr>s_bytes = exampleFile, s_pos = 49\<rparr>)"
  by code_simp

lemma example_parse_ex:
  "\<exists>r1. parseRecord exampleReader (bytes_of ''chr1'') True
          = Inr (\<lparr>dnaSize = 10, nBlocks = [\<lparr>bstart = 2, bcount = 3\<rparr>], mBlocks = [],
                   rec_reserved = 0, sequence = []\<rparr>, r1)
        \<and> reader r1 = \<lparr>s_bytes = exampleFile, s_pos = 49\<rparr>"
  using example_parse
  by (cases "parseRecord exampleReader (bytes_of ''chr1'') True") auto

lemma example_NewReader:
  "(case NewReader \<lparr>s_bytes = exampleFile, s_pos = 0\<rparr> of
      Inl x \<Rightarrow> Inl x
    | Inr r \<Rightarrow> Inr (reader r, hdr r, index r (bytes_of ''chr1'')))
   = Inr (reader exampleReader, hdr exampleReader, index exampleReader (bytes_of ''chr1''))"
  by code_simp

lemma example_written:
  "(case Add NewWriter (bytes_of ''chr1'') (bytes_of ''AANNNAAAAA'') of
      Inl x \<Rightarrow> Inl x
    | Inr w \<Rightarrow> WriteTo w [bytes_of ''chr1'']) = Inr exampleFile"
  by code_simp

lemma example_read_0_10:
  "seqOf (ReadRange exampleReader (bytes_of ''chr1'') 0 10) = Inr (bytes_of ''AANNNAAAAA'')"
  by code_simp

lemma example_read_3_6:
  "seqOf (ReadRange exampleReader (bytes_of ''chr1'') 3 6) = Inr (bytes_of ''NNA'')"
  by code_simp

lemma example_read_0_5:
  "seqOf (ReadRange exampleReader (bytes_of ''chr1'') 0 5) = Inr (bytes_of ''AANNN'')"
  by code_simp

lemma example_read_3_10:
  "seqOf (ReadRange exampleReader (bytes_of ''chr1'') 3 10) = Inr (bytes_of ''NNAAAAA'')"
  by code_simp




text \<open>
  Claim C4. The overlay of the unknown blocks sets exactly the positions of the window
  that a block covers to \<open>N\<close> and leaves every other position as it was, whatever the
  blocks are; for a record without masked blocks the output of \<^verbatim>\<open>ReadRange\<close> has an
  \<open>N\<close> exactly at the positions that a block of \<open>nBlocks\<close> covers. For the example, the
  record with \<open>nBlocks = [{start: 2, count: 3}]\<close> over ten bases \<open>A\<close>, the range
  \<open>[0, 10)\<close> reads as \<open>AANNNAAAAA\<close> and the range \<open>[3, 6)\<close> as \<open>NNA\<close>.
\<close>

theorem unknown_overlay:
  "(int (length seq) \<le> e - s \<longrightarrow>
      overlayN bs s e seq
        = Inr (map (\<lambda>i. if \<exists>b\<in>set bs. covers b (s + int i) then BASE_N else seq ! i)
                 [0..<length seq]))
   \<and> (\<forall>rc r1 out r2.
         parseRecord r name True = Inr (rc, r1) \<and> mBlocks rc = []
         \<and> ReadRange r name start end = Inr (out, r2) \<longrightarrow>
         (\<forall>i<length out.
            out ! i = BASE_N \<longleftrightarrow> (\<exists>b\<in>set (nBlocks rc). covers b (clampStart start + int i))))
   \<and> (case parseRecord exampleReader (bytes_of ''chr1'') True of
         Inl x \<Rightarrow> Inl x
       | Inr (rc, r1) \<Rightarrow> Inr (rc, reader r1))
      = Inr (\<lparr>dnaSize = 10, nBlocks = [\<lparr>bstart = 2, bcount = 3\<rparr>], mBlocks = [],
               rec_reserved = 0, sequence = []\<rparr>,
             \<lparr>s_bytes = exampleFile, s_pos = 49\<rparr>)
   \<and> seqOf (ReadRange exampleReader (bytes_of ''chr1'') 0 10) = Inr (bytes_of ''AANNNAAAAA'')
   \<and> seqOf (ReadRange exampleReader (bytes_of ''chr1'') 3 6) = Inr (bytes_of ''NNA'')"
proof (intro conjI impI allI)
  assume "int (length seq) \<le> e - s"
  then show "overlayN bs s e seq
        = Inr (map (\<lambda>i. if \<exists>b\<in>set bs. covers b (s + int i) then BASE_N else seq ! i)
                 [0..<length seq])"
    by (rule overlayN_eq)
next
  fix rc r1 out r2 i
  assume a: "parseRecord r name True = Inr (rc, r1) \<and> mBlocks rc = []
         \<and> ReadRange r name start end = Inr (out, r2)"
    and iout: "i < length out"
  define s' where "s' = clampStart start"
  define e' where "e' = clampEnd (uint (dnaSize rc)) end"
  have s0: "0 \<le> s'" by (simp add: s'_def clampStart_def)
  from a have ac: "afterClamp rc r1 s' e' = Inr (out, r2)"
    by (auto simp: ReadRange_clamp s'_def e'_def)
  then have se: "s' < e'" unfolding afterClamp_def by (auto split: if_splits)
  from ac obtain w st1 where w: "readWindow (reader r1) s' e' = Inr (w, st1)"
    unfolding afterClamp_def using se by (auto split: sum.splits)
  from readWindow_Inr[OF s0 se w] have lw: "int (length w) = e' - s'" and dec: "set w \<subseteq> set BYTES2NT"
    using se by simp_all
  from ac w a have o: "overlayN (nBlocks rc) s' e' w = Inr out"
    unfolding afterClamp_def using se by (auto split: sum.splits)
  have out: "out = map (\<lambda>i. if \<exists>b\<in>set (nBlocks rc). covers b (s' + int i) then BASE_N else w ! i) [0..<length w]"
    using o overlayN_eq[of w e' s' "nBlocks rc"] lw by simp
  from iout have i: "i < length w" by (simp add: out)
  then have "w ! i \<in> set BYTES2NT" using dec by auto
  then have "w ! i \<noteq> BASE_N" using BASE_N_not_decoded by auto
  then show "out ! i = BASE_N \<longleftrightarrow> (\<exists>b\<in>set (nBlocks rc). covers b (clampStart start + int i))"
    using i unfolding out s'_def by simp
next
  show "(case parseRecord exampleReader (bytes_of ''chr1'') True of
         Inl x \<Rightarrow> Inl x
       | Inr (rc, r1) \<Rightarrow> Inr (rc, reader r1))
      = Inr (\<lparr>dnaSize = 10, nBlocks = [\<lparr>bstart = 2, bcount = 3\<rparr>], mBlocks = [],
               rec_reserved = 0, sequence = []\<rparr>,
             \<lparr>s_bytes = exampleFile, s_pos = 49\<rparr>)"
    by (rule example_parse)
next
  show "seqOf (ReadRange exampleReader (bytes_of ''chr1'') 0 10) = Inr (bytes_of ''AANNNAAAAA'')"
    by (rule example_read_0_10)
next
  show "seqOf (ReadRange exampleReader (bytes_of ''chr1'') 3 6) = Inr (bytes_of ''NNA'')"
    by (rule example_read_3_6)
qed

theorem unknown_overlay_witness:
  "int (length (bytes_of ''AAA'')) \<le> 6 - 3
   \<and> overlayN [\<lparr>bstart = 2, bcount = 3\<rparr>] 3 6 (bytes_of ''AAA'') = Inr (bytes_of ''NNA'')
   \<and> (\<exists>rc r1 out r2. parseRecord exampleReader (bytes_of ''chr1'') True = Inr (rc, r1) \<and> mBlocks rc = []
         \<and> ReadRange exampleReader (bytes_of ''chr1'') 3 6 = Inr (out, r2)
         \<and> 2 < length out \<and> out ! 2 \<noteq> BASE_N
         \<and> \<not> (\<exists>b\<in>set (nBlocks rc). covers b (clampStart 3 + int 2)))"
proof -
  let ?n = "bytes_of ''chr1''"
  let ?rc = "\<lparr>dnaSize = 10, nBlocks = [\<lparr>bstart = 2, bcount = 3\<rparr>], mBlocks = [],
              rec_reserved = 0, sequence = []\<rparr>"
  note T = unknown_overlay[of "bytes_of ''AAA''" 6 3 "[\<lparr>bstart = 2, bcount = 3\<rparr>]" exampleReader ?n 3 6]
  have l: "int (length (bytes_of ''AAA'')) \<le> 6 - 3" by (simp add: bytes_of_def)
  with T have "overlayN [\<lparr>bstart = 2, bcount = 3\<rparr>] 3 6 (bytes_of ''AAA'')
        = Inr (map (\<lambda>i. if \<exists>b\<in>set [\<lparr>bstart = 2, bcount = 3\<rparr>]. covers b (3 + int i) then BASE_N else bytes_of ''AAA'' ! i)
                 [0..<length (bytes_of ''AAA'')])" by blast
  also have "\<dots> = Inr (bytes_of ''NNA'')"
    by (simp add: bytes_of_def covers_def Length_def BASE_N_def upt_rec)
  finally have o: "overlayN [\<lparr>bstart = 2, bcount = 3\<rparr>] 3 6 (bytes_of ''AAA'') = Inr (bytes_of ''NNA'')" .
  from example_parse_ex obtain r1 where
    p: "parseRecord exampleReader ?n True = Inr (?rc, r1)" by blast
  from example_read_3_6 obtain r2 where rr: "ReadRange exampleReader ?n 3 6 = Inr (bytes_of ''NNA'', r2)"
    by (cases "ReadRange exampleReader ?n 3 6") (auto simp: seqOf_def)
  have m: "mBlocks ?rc = []" by simp
  from T p m rr have c: "\<forall>i<length (bytes_of ''NNA'').
            bytes_of ''NNA'' ! i = BASE_N \<longleftrightarrow> (\<exists>b\<in>set (nBlocks ?rc). covers b (clampStart 3 + int i))"
    by blast
  have l2: "2 < length (bytes_of ''NNA'')" by (simp add: bytes_of_def)
  have n2: "bytes_of ''NNA'' ! 2 \<noteq> BASE_N" by (simp add: bytes_of_def BASE_N_def)
  from c l2 n2 have "\<not> (\<exists>b\<in>set (nBlocks ?rc). covers b (clampStart 3 + int 2))" by blast
  with l o p m rr l2 n2 show ?thesis by blast
qed

text \<open>
  Claim C5, at an input where it fails. The sequence \<open>AAAAAccAAA\<close> has the masked block
  \<open>{start: 5, count: 2}\<close>. Reading the range \<open>[0, 5)\<close> of it back, the masked overlay
  writes \<open>seq[5]\<close> in a slice of five characters: an index out of range. The overlay of
  unknown bases, which tests the index before it writes, leaves the same window alone.
\<close>

theorem masked_overlay_index_out_of_range:
  "writeThenRead (bytes_of ''chr1'') (bytes_of ''AAAAAccAAA'') 0 5 = Inl PanicIndexOutOfRange
   \<and> overlayM [\<lparr>bstart = 5, bcount = 2\<rparr>] 0 5 (bytes_of ''AAAAA'') = Inl PanicIndexOutOfRange
   \<and> overlayN [\<lparr>bstart = 5, bcount = 2\<rparr>] 0 5 (bytes_of ''AAAAA'') = Inr (bytes_of ''AAAAA'')"
  by code_simp

text \<open>
  Claim C6. A negative \<open>start\<close> reads as \<open>start = 0\<close>; an \<open>end\<close> beyond \<open>dnaSize\<close> and
  an \<open>end\<close> that is not positive both read as \<open>end = dnaSize\<close>.
\<close>

theorem ReadRange_clamping:
  "(start < 0 \<longrightarrow> ReadRange r name start end = ReadRange r name 0 end)
   \<and> (\<forall>rc r1. parseRecord r name True = Inr (rc, r1) \<longrightarrow>
         (end > uint (dnaSize rc) \<or> end \<le> 0 \<longrightarrow>
            ReadRange r name k end = ReadRange r name k (uint (dnaSize rc))))"
  by (auto simp: ReadRange_clamp clampStart_def clampEnd_def max_def split: sum.splits)

theorem ReadRange_clamping_witness:
  "(-10::int) < 0
   \<and> ReadRange exampleReader (bytes_of ''chr1'') (-10) 5 = ReadRange exampleReader (bytes_of ''chr1'') 0 5
   \<and> seqOf (ReadRange exampleReader (bytes_of ''chr1'') 0 5) = Inr (bytes_of ''AANNN'')
   \<and> (\<exists>rc r1. parseRecord exampleReader (bytes_of ''chr1'') True = Inr (rc, r1)
         \<and> uint (dnaSize rc) = 10 \<and> 1010 > uint (dnaSize rc) \<and> (0::int) \<le> 0
         \<and> ReadRange exampleReader (bytes_of ''chr1'') 3 1010
              = ReadRange exampleReader (bytes_of ''chr1'') 3 (uint (dnaSize rc))
         \<and> ReadRange exampleReader (bytes_of ''chr1'') 3 0
              = ReadRange exampleReader (bytes_of ''chr1'') 3 (uint (dnaSize rc)))
   \<and> seqOf (ReadRange exampleReader (bytes_of ''chr1'') 3 10) = Inr (bytes_of ''NNAAAAA'')"
proof -
  let ?n = "bytes_of ''chr1''"
  let ?rc = "\<lparr>dnaSize = 10, nBlocks = [\<lparr>bstart = 2, bcount = 3\<rparr>], mBlocks = [],
              rec_reserved = 0, sequence = []\<rparr>"
  from example_parse_ex obtain r1 where
    p: "parseRecord exampleReader ?n True = Inr (?rc, r1)" by blast
  have u: "uint (dnaSize ?rc) = 10" by simp
  have a: "ReadRange exampleReader ?n (-10) 5 = ReadRange exampleReader ?n 0 5"
    using ReadRange_clamping[of "-10" exampleReader ?n 5] by simp
  have b: "ReadRange exampleReader ?n 3 1010 = ReadRange exampleReader ?n 3 (uint (dnaSize ?rc))"
    using ReadRange_clamping[of 0 exampleReader ?n 1010 3] p by simp
  have c: "ReadRange exampleReader ?n 3 0 = ReadRange exampleReader ?n 3 (uint (dnaSize ?rc))"
    using ReadRange_clamping[of 0 exampleReader ?n 0 3] p by simp
  have d: "\<exists>rc r1. parseRecord exampleReader ?n True = Inr (rc, r1)
         \<and> uint (dnaSize rc) = 10 \<and> 1010 > uint (dnaSize rc) \<and> (0::int) \<le> 0
         \<and> ReadRange exampleReader ?n 3 1010 = ReadRange exampleReader ?n 3 (uint (dnaSize rc))
         \<and> ReadRange exampleReader ?n 3 0 = ReadRange exampleReader ?n 3 (uint (dnaSize rc))"
    by (rule exI[of _ ?rc], rule exI[of _ r1], intro conjI) (fact p u b c | simp)+
  from a d example_read_0_5 example_read_3_10 show ?thesis by simp
qed

text \<open>
  Claim C7, where it fails as stated: with a blank chromosome name \<^verbatim>\<open>GenomicInterval\<close>
  returns its error before it compares \<open>start\<close> and \<open>end\<close>.
\<close>

theorem GenomicInterval_blank_counterexample:
  "GenomicInterval \<lparr>tb = exampleReader\<rparr> [] 5 5 = Inl BlankChromosome"
  by (simp add: GenomicInterval_def)

text \<open>
  Claim C7, amended. For a name whose record parses, \<^verbatim>\<open>ReadRange\<close> fails with the range
  error whenever the clamped \<open>end\<close> is not beyond the clamped \<open>start\<close>;
  \<^verbatim>\<open>ReadRange(name, 5, 5)\<close> fails for every reader and name, with the range error when
  the record parses; and \<^verbatim>\<open>GenomicInterval\<close> with a chromosome name that is not blank
  returns the empty string and no error for \<open>start = end\<close>, whatever the reader holds.
\<close>

theorem degenerate_range:
  "(\<forall>rc r1. parseRecord r name True = Inr (rc, r1) \<longrightarrow>
       clampEnd (uint (dnaSize rc)) end \<le> clampStart start \<longrightarrow>
       ReadRange r name start end
         = Inl (InvalidRange (clampStart start) (clampEnd (uint (dnaSize rc)) end)))
   \<and> (\<exists>x. ReadRange r name 5 5 = Inl x)
   \<and> (\<forall>rc r1. parseRecord r name True = Inr (rc, r1) \<longrightarrow>
         (\<exists>e. ReadRange r name 5 5 = Inl (InvalidRange 5 e)))
   \<and> (chr \<noteq> [] \<longrightarrow> GenomicInterval service chr k k = Inr ([], service))"
proof (intro conjI allI impI)
  fix rc r1
  assume "parseRecord r name True = Inr (rc, r1)"
    and "clampEnd (uint (dnaSize rc)) end \<le> clampStart start"
  then show "ReadRange r name start end
         = Inl (InvalidRange (clampStart start) (clampEnd (uint (dnaSize rc)) end))"
    by (simp add: ReadRange_clamp afterClamp_def)
next
  show "\<exists>x. ReadRange r name 5 5 = Inl x"
    by (auto simp: ReadRange_clamp afterClamp_def clampStart_def clampEnd_def split: sum.splits)
next
  fix rc r1
  assume "parseRecord r name True = Inr (rc, r1)"
  then show "\<exists>e. ReadRange r name 5 5 = Inl (InvalidRange 5 e)"
    by (auto simp: ReadRange_clamp afterClamp_def clampStart_def clampEnd_def)
next
  assume "chr \<noteq> []"
  then show "GenomicInterval service chr k k = Inr ([], service)"
    by (simp add: GenomicInterval_def Let_def)
qed

theorem degenerate_range_witness:
  "(\<exists>rc r1. parseRecord exampleReader (bytes_of ''chr1'') True = Inr (rc, r1)
       \<and> clampEnd (uint (dnaSize rc)) 5 \<le> clampStart 5
       \<and> ReadRange exampleReader (bytes_of ''chr1'') 5 5 = Inl (InvalidRange 5 5))
   \<and> bytes_of ''1'' \<noteq> []
   \<and> GenomicInterval \<lparr>tb = exampleReader\<rparr> (bytes_of ''1'') 5 5 = Inr ([], \<lparr>tb = exampleReader\<rparr>)"
proof -
  let ?n = "bytes_of ''chr1''"
  let ?rc = "\<lparr>dnaSize = 10, nBlocks = [\<lparr>bstart = 2, bcount = 3\<rparr>], mBlocks = [],
              rec_reserved = 0, sequence = []\<rparr>"
  from example_parse_ex obtain r1 where
    p: "parseRecord exampleReader ?n True = Inr (?rc, r1)" by blast
  note T = degenerate_range[of exampleReader ?n 5 5 "bytes_of ''1''" "\<lparr>tb = exampleReader\<rparr>" 5]
  have c: "clampEnd (uint (dnaSize ?rc)) 5 \<le> clampStart 5" by (simp add: clampEnd_def clampStart_def)
  from T p c have "ReadRange exampleReader ?n 5 5
      = Inl (InvalidRange (clampStart 5) (clampEnd (uint (dnaSize ?rc)) 5))" by blast
  then have rr: "ReadRange exampleReader ?n 5 5 = Inl (InvalidRange 5 5)"
    by (simp add: clampEnd_def clampStart_def)
  have ne: "bytes_of ''1'' \<noteq> []" by (simp add: bytes_of_def)
  with T have g: "GenomicInterval \<lparr>tb = exampleReader\<rparr> (bytes_of ''1'') 5 5 = Inr ([], \<lparr>tb = exampleReader\<rparr>)"
    by blast
  have "\<exists>rc r1. parseRecord exampleReader ?n True = Inr (rc, r1)
       \<and> clampEnd (uint (dnaSize rc)) 5 \<le> clampStart 5
       \<and> ReadRange exampleReader ?n 5 5 = Inl (InvalidRange 5 5)"
    by (rule exI[of _ ?rc], rule exI[of _ r1], intro conjI) (fact p c rr)+
  with ne g show ?thesis by blast
qed

end
